theory Spec2Isabelle
  imports Complex_Main "HOL-Library.Sublist"
begin

section \<open>Data model of the reserve manager (src/reserve_manager.py)\<close>

text \<open>
  Monetary amounts, yields and weights are Python floats in the source. They are modelled
  as exact rationals: every finite float is a rational, and the arithmetic of the engine
  (\<open>+\<close>, \<open>-\<close>, \<open>*\<close>, \<open>/\<close>, \<open>min\<close>, \<open>max\<close>, \<open>**\<close>) is taken without representation error.
  The only non-finite value the engine itself produces is \<open>float("inf")\<close>, the room
  of an account without a cap; it is kept as a constructor of its own.
\<close>

text \<open>The classes \<open>Account\<close>, \<open>Tier\<close> and \<open>Plan\<close>, field by field (\<open>notes\<close> is
  written \<open>notes_str\<close>).\<close>

record Account =
  name :: string
  balance :: rat
  apy_pct :: rat
  notes_str :: string
  alloc_weight :: rat
  account_target :: "rat option"

record Tier =
  name :: string
  purpose :: string
  target :: rat
  priority :: int
  accounts :: "Account list"
  preferred_account :: "string option"

record Plan =
  tiers :: "Tier list"
  last_updated :: string

datatype error = StopIteration

text \<open>The value of \<open>remaining_room\<close>: a finite float or \<open>float("inf")\<close>.\<close>

datatype room = Inf | Fin rat

type_synonym moves = "(string \<times> rat) list"

text \<open>
  Python's \<open>round(x, 2)\<close> on a float: the nearest multiple of 0.01 of the exact value,
  a tie going to the even hundredth.
\<close>

definition round2 :: "rat \<Rightarrow> rat" where
  "round2 x =
     (let y = x * 100; n = \<lfloor>y\<rfloor>; f = y - of_int n
      in of_int (if f < 1 / 2 then n
                 else if 1 / 2 < f then n + 1
                 else if even n then n else n + 1) / 100)"

section \<open>Rounding to whole cents\<close>

text \<open>The number of hundredths \<open>round2\<close> rounds to; the bounds below are what the
  termination of every loop of the engine rests on.\<close>

definition cents :: "rat \<Rightarrow> int" where
  "cents x = (let y = x * 100; n = \<lfloor>y\<rfloor>; f = y - of_int n
      in (if f < 1 / 2 then n
                 else if 1 / 2 < f then n + 1
                 else if even n then n else n + 1))"

lemma round2_cents: "round2 x = of_int (cents x) / 100"
  by (simp add: round2_def cents_def Let_def)

lemma cents_bounds: "of_int (cents x) - 1/2 \<le> x * 100 \<and> x * 100 \<le> of_int (cents x) + 1/2"
proof -
  define n where "n = \<lfloor>x * 100\<rfloor>"
  have n: "of_int n \<le> x * 100" "x * 100 < of_int n + 1"
    unfolding n_def by linarith+
  have c: "cents x = (if x * 100 - of_int n < 1 / 2 then n
                 else if 1 / 2 < x * 100 - of_int n then n + 1
                 else if even n then n else n + 1)"
    by (simp add: cents_def Let_def n_def)
  show ?thesis
  proof (cases "x * 100 - of_int n < 1 / 2")
    case True
    with c have "cents x = n" by simp
    with n True show ?thesis by simp
  next
    case False
    then have "cents x = n \<and> x * 100 - of_int n = 1 / 2 \<or> cents x = n + 1"
      using c by (auto split: if_splits)
    with n False show ?thesis by auto
  qed
qed

lemma cents_floor_le: "\<lfloor>x * 100\<rfloor> \<le> cents x" and cents_le_floor: "cents x \<le> \<lfloor>x * 100\<rfloor> + 1"
  by (auto simp: cents_def Let_def)

lemma cents_mono: assumes "x \<le> y" shows "cents x \<le> cents y"
proof -
  have fl: "\<lfloor>x * 100\<rfloor> \<le> \<lfloor>y * 100\<rfloor>" using assms by (simp add: floor_mono)
  show ?thesis
  proof (cases "\<lfloor>x * 100\<rfloor> = \<lfloor>y * 100\<rfloor>")
    case True
    have "x * 100 - of_int \<lfloor>x * 100\<rfloor> \<le> y * 100 - of_int \<lfloor>y * 100\<rfloor>"
      using True assms by simp
    then show ?thesis using True by (auto simp: cents_def Let_def)
  next
    case False
    with fl have "\<lfloor>x * 100\<rfloor> + 1 \<le> \<lfloor>y * 100\<rfloor>" by simp
    then show ?thesis using cents_le_floor [of x] cents_floor_le [of y] by linarith
  qed
qed

lemma cents_of_int: "cents (of_int k / 100) = k"
  by (simp add: cents_def Let_def)

lemma round2_lower: "x - 1/200 \<le> round2 x"
  using cents_bounds [of x] by (simp add: round2_cents field_simps)

lemma round2_upper: "round2 x \<le> x + 1/200"
  using cents_bounds [of x] by (simp add: round2_cents field_simps)

lemma round2_mono: "x \<le> y \<Longrightarrow> round2 x \<le> round2 y"
  by (simp add: round2_cents cents_mono divide_right_mono)

lemma round2_of_cents: "round2 (of_int k / 100) = of_int k / 100"
  by (simp add: round2_cents cents_of_int)

lemma round2_idem: "round2 (round2 x) = round2 x"
  by (simp add: round2_cents cents_of_int)

lemma round2_pos_ge: "0 < round2 x \<Longrightarrow> 1/100 \<le> round2 x"
proof -
  assume "0 < round2 x"
  then have "0 < cents x" by (simp add: round2_cents)
  then have "1 \<le> cents x" by simp
  then have "(1::rat) \<le> of_int (cents x)" by linarith
  then show ?thesis by (simp add: round2_cents)
qed

lemma round2_zero: "round2 0 = 0"
  by (simp add: round2_def)

lemma round2_nonneg: "0 \<le> x \<Longrightarrow> 0 \<le> round2 x"
  using round2_mono [of 0 x] by (simp add: round2_zero)

lemma round2_nonpos: "x \<le> 0 \<Longrightarrow> round2 x \<le> 0"
  using round2_mono [of x 0] by (simp add: round2_zero)

section \<open>The engine\<close>

subsection \<open>Account\<close>

definition expected_growth :: "Account \<Rightarrow> int \<Rightarrow> rat" where
  "expected_growth a months =
     (if apy_pct a \<le> 0 \<or> balance a \<le> 0 \<or> months \<le> 0 then 0
      else let r = apy_pct a / 100
           in balance a * ((1 + r / 12) ^ nat months - 1))"

definition remaining_room :: "Account \<Rightarrow> room" where
  "remaining_room a =
     (case account_target a of
        None \<Rightarrow> Inf
      | Some c \<Rightarrow> Fin (max 0 (c - balance a)))"

text \<open>\<open>room > 0\<close> and \<open>min(x, room)\<close> for a room that may be infinite.\<close>

fun room_pos :: "room \<Rightarrow> bool" where
  "room_pos Inf = True"
| "room_pos (Fin r) = (0 < r)"

fun min_room :: "rat \<Rightarrow> room \<Rightarrow> rat" where
  "min_room x Inf = x"
| "min_room x (Fin r) = min x r"

subsection \<open>Tier\<close>

definition total :: "Tier \<Rightarrow> rat" where
  "total t = sum_list (map balance (accounts t))"

definition gap :: "Tier \<Rightarrow> rat" where
  "gap t = max 0 (target t - total t)"

text \<open>Python's \<open>x or d\<close> on an optional float: \<open>None\<close> and \<open>0.0\<close> are both falsy.\<close>

fun py_or :: "rat option \<Rightarrow> rat \<Rightarrow> rat" where
  "py_or None d = d"
| "py_or (Some v) d = (if v = 0 then d else v)"

text \<open>
  The body of the \<open>if a.name == name\<close> branch of \<open>add_or_update_account\<close>: the
  assignments to the matching account, in the order of the source. The \<open>notes\<close>
  parameter is a \<open>str\<close> and is tested for truth (non-empty), the other optional
  parameters are tested against \<open>None\<close>.
\<close>

definition update_account ::
  "rat \<Rightarrow> rat option \<Rightarrow> string \<Rightarrow> rat option \<Rightarrow> rat option \<Rightarrow> Account \<Rightarrow> Account" where
  "update_account bal apy nts w tgt a =
     (let a1 = a\<lparr>balance := bal\<rparr>;
          a2 = (case apy of None \<Rightarrow> a1 | Some v \<Rightarrow> a1\<lparr>apy_pct := v\<rparr>);
          a3 = (if nts \<noteq> [] then a2\<lparr>notes_str := nts\<rparr> else a2);
          a4 = (case w of None \<Rightarrow> a3 | Some v \<Rightarrow> a3\<lparr>alloc_weight := v\<rparr>)
      in (case tgt of None \<Rightarrow> a4 | Some v \<Rightarrow> a4\<lparr>account_target := Some v\<rparr>))"

definition new_account ::
  "string \<Rightarrow> rat \<Rightarrow> rat option \<Rightarrow> string \<Rightarrow> rat option \<Rightarrow> rat option \<Rightarrow> Account" where
  "new_account nm bal apy nts w tgt =
     \<lparr>Account.name = nm, balance = bal, apy_pct = py_or apy 0, notes_str = nts,
      alloc_weight = py_or w 1, account_target = tgt\<rparr>"

text \<open>The \<open>for a in self.accounts\<close> loop: the first account of that name is updated and
  the method returns; when the loop runs out, the new account is appended.\<close>

fun upsert ::
  "string \<Rightarrow> rat \<Rightarrow> rat option \<Rightarrow> string \<Rightarrow> rat option \<Rightarrow> rat option \<Rightarrow> Account list
     \<Rightarrow> Account list" where
  "upsert nm bal apy nts w tgt [] = [new_account nm bal apy nts w tgt]"
| "upsert nm bal apy nts w tgt (a # as) =
     (if Account.name a = nm then update_account bal apy nts w tgt a # as
      else a # upsert nm bal apy nts w tgt as)"

definition add_or_update_account ::
  "Tier \<Rightarrow> string \<Rightarrow> rat \<Rightarrow> rat option \<Rightarrow> string \<Rightarrow> rat option \<Rightarrow> rat option \<Rightarrow> Tier" where
  "add_or_update_account t nm bal apy nts w tgt =
     t\<lparr>accounts := upsert nm bal apy nts w tgt (accounts t)\<rparr>"

text \<open>
  \<open>allocate_into_accounts\<close>, the preferred account first. \<open>if self.preferred_account\<close>
  is a truth test: \<open>None\<close> and the empty string both skip the branch.
  \<open>next(a for a in self.accounts if ...)\<close> has no default, so it raises
  \<open>StopIteration\<close> when no account has the preferred name. The amount recorded in the
  move is \<open>round(add, 2)\<close>; the amount taken from \<open>remaining\<close> is \<open>add\<close>.
\<close>

definition preferred_first :: "Tier \<Rightarrow> rat \<Rightarrow> error + (moves \<times> rat)" where
  "preferred_first t remaining =
     (case preferred_account t of
        None \<Rightarrow> Inr ([], remaining)
      | Some pn \<Rightarrow>
          if pn = [] then Inr ([], remaining)
          else (case find (\<lambda>a. Account.name a = pn) (accounts t) of
                  None \<Rightarrow> Inl StopIteration
                | Some pa \<Rightarrow>
                    let room = remaining_room pa
                    in if room_pos room
                       then let add = min_room remaining room
                            in if 0 < add
                               then Inr ([(Account.name pa, round2 add)], remaining - add)
                               else Inr ([], remaining)
                       else Inr ([], remaining)))"

text \<open>
  The \<open>for a in candidates\<close> loop of one pass of the weighted split. The state is
  \<open>(remaining, moves, progressed)\<close>; \<open>remaining\<close> is read anew for every candidate,
  after the subtractions of the candidates before it.
\<close>

fun split_pass :: "rat \<Rightarrow> Account list \<Rightarrow> rat \<times> moves \<times> bool \<Rightarrow> rat \<times> moves \<times> bool" where
  "split_pass total_w [] s = s"
| "split_pass total_w (a # as) (remaining, moves, progressed) =
     (let share = remaining * (max 0 (alloc_weight a) / total_w);
          add = round2 (min_room share (remaining_room a))
      in if 0 < add
         then split_pass total_w as (remaining - add, moves @ [(Account.name a, add)], True)
         else split_pass total_w as (remaining, moves, progressed))"

definition candidates_of :: "Tier \<Rightarrow> Account list" where
  "candidates_of t = filter (\<lambda>a. room_pos (remaining_room a)) (accounts t)"

definition total_weight :: "Account list \<Rightarrow> rat" where
  "total_weight cs = sum_list (map (\<lambda>a. max 0 (alloc_weight a)) cs)"

text \<open>One pass never gives \<open>remaining\<close> back, and a pass that progressed took at least
  one cent: the measure of the \<open>while remaining > 0\<close> loop.\<close>

lemma split_pass_remaining:
  "split_pass tw cs (r, ms, pg) = (r', ms', pg') \<Longrightarrow>
     r' \<le> r \<and> (pg' \<and> \<not> pg \<longrightarrow> r' \<le> r - 1/100) \<and> (pg \<longrightarrow> pg')"
proof (induction cs arbitrary: r ms pg)
  case Nil
  then show ?case by simp
next
  case (Cons a as)
  define add where "add = round2 (min_room (r * (max 0 (alloc_weight a) / tw)) (remaining_room a))"
  show ?case
  proof (cases "0 < add")
    case True
    then have ge: "1/100 \<le> add" unfolding add_def by (rule round2_pos_ge)
    from Cons.prems True have "split_pass tw as (r - add, ms @ [(Account.name a, add)], True) = (r', ms', pg')"
      by (simp add: add_def Let_def)
    from Cons.IH [OF this] ge show ?thesis by auto
  next
    case False
    with Cons.prems have "split_pass tw as (r, ms, pg) = (r', ms', pg')"
      by (simp add: add_def Let_def)
    from Cons.IH [OF this] show ?thesis by auto
  qed
qed

lemma pass_measure:
  assumes "0 < r" "r1 \<le> r - 1 / 100"
  shows "nat \<lceil>r1 * 100\<rceil> < nat \<lceil>r * 100\<rceil>"
proof -
  from assms(2) have "r1 * 100 \<le> r * 100 - 1" by simp
  then have "\<lceil>r1 * 100\<rceil> \<le> \<lceil>r * 100 - 1\<rceil>" by (rule ceiling_mono)
  then have "\<lceil>r1 * 100\<rceil> \<le> \<lceil>r * 100\<rceil> - 1" by simp
  moreover have "0 < \<lceil>r * 100\<rceil>" using assms(1) by simp
  ultimately show ?thesis by simp
qed

text \<open>
  The \<open>while remaining > 0\<close> loop of \<open>allocate_into_accounts\<close>. It is given the
  state \<open>(remaining, moves)\<close> the preferred account left and returns the state at exit:
  the moves, which the method returns, and the cash not assigned. With no weight among
  the candidates the first candidate takes what its room allows and the loop is left; a
  pass without progress leaves it as well.
\<close>

function distribute :: "Tier \<Rightarrow> rat \<Rightarrow> moves \<Rightarrow> moves \<times> rat" where
  "distribute t remaining moves =
     (if 0 < remaining
      then let candidates = candidates_of t
           in (case candidates of
                 [] \<Rightarrow> (moves, remaining)
               | a # _ \<Rightarrow>
                   let total_w = total_weight candidates
                   in if total_w \<le> 0
                      then let add = min_room remaining (remaining_room a)
                           in (moves @ [(Account.name a, round2 add)], remaining - add)
                      else (case split_pass total_w candidates (remaining, moves, False) of
                              (remaining', moves', progressed) \<Rightarrow>
                                if \<not> progressed then (moves', remaining')
                                else distribute t remaining' moves'))
      else (moves, remaining))"
  by pat_completeness auto
termination
proof (relation "measure (\<lambda>(t, remaining, moves). nat \<lceil>remaining * 100\<rceil>)", goal_cases)
  case 1
  show ?case by simp
next
  case (2 t remaining moves candidates a as total_w remaining' rest moves' progressed)
  then have "split_pass total_w candidates (remaining, moves, False) = (remaining', moves', progressed)"
    by simp
  from split_pass_remaining [OF this] 2 have "remaining' \<le> remaining - 1 / 100"
    by simp
  with 2(1) have "nat \<lceil>remaining' * 100\<rceil> < nat \<lceil>remaining * 100\<rceil>" by (rule pass_measure)
  then show ?case by simp
qed

declare distribute.simps [simp del]

definition allocate_into_accounts :: "Tier \<Rightarrow> rat \<Rightarrow> error + moves" where
  "allocate_into_accounts t amount =
     (let remaining = max 0 amount
      in if remaining \<le> 0 \<or> accounts t = [] then Inr []
         else (case preferred_first t remaining of
                 Inl e \<Rightarrow> Inl e
               | Inr (moves, remaining') \<Rightarrow> Inr (fst (distribute t remaining' moves))))"

subsection \<open>Plan\<close>

type_synonym dmoves = "(string \<times> string \<times> rat) list"

text \<open>\<open>sorted(self.tiers, key=...)\<close> is stable, as \<open>sort_key\<close> is: tiers of equal
  priority keep their Plan order.\<close>

definition sorted_by_priority :: "Plan \<Rightarrow> Tier list" where
  "sorted_by_priority p = sort_key priority (tiers p)"

text \<open>The test of the overflow rule, \<open>"Tier 4" in t.name or "Growth" in t.purpose\<close>:
  substring tests.\<close>

definition is_growth :: "Tier \<Rightarrow> bool" where
  "is_growth t = (sublist ''Tier 4'' (Tier.name t) \<or> sublist ''Growth'' (purpose t))"

text \<open>
  The \<open>for tier in self.sorted_by_priority()\<close> loop of \<open>allocation_plan\<close>, with its
  \<open>break\<close> and \<open>continue\<close>; it returns the moves and the cash left. The listed amount
  is \<open>round(amt, 2)\<close>, the deducted amount is \<open>amt\<close>. After the loop the leftover
  goes to the first tier that passes the test; \<open>if growth\<close> holds for every Tier object.
\<close>

fun fill_gaps :: "Tier list \<Rightarrow> rat \<Rightarrow> moves \<Rightarrow> moves \<times> rat" where
  "fill_gaps [] remaining moves = (moves, remaining)"
| "fill_gaps (tier # ts) remaining moves =
     (if remaining \<le> 0 then (moves, remaining)
      else let need = gap tier
           in if need \<le> 0 then fill_gaps ts remaining moves
              else let amt = min remaining need
                   in if 0 < amt
                      then fill_gaps ts (remaining - amt) (moves @ [(Tier.name tier, round2 amt)])
                      else fill_gaps ts remaining moves)"

definition allocation_plan :: "Plan \<Rightarrow> rat \<Rightarrow> moves" where
  "allocation_plan p new_cash =
     (case fill_gaps (sorted_by_priority p) (max 0 new_cash) [] of
        (moves, remaining) \<Rightarrow>
          if 0 < remaining
          then (case find is_growth (sorted_by_priority p) of
                  None \<Rightarrow> moves
                | Some growth \<Rightarrow> moves @ [(Tier.name growth, round2 remaining)])
          else moves)"

text \<open>
  \<open>allocation_plan_detailed\<close>: the same loop, each amount split by
  \<open>allocate_into_accounts\<close>, whose exception ends the call. Every account move is
  listed with the tier name and rounded once more. When the split is empty the whole
  amount goes to the first account, if there is one.
\<close>

definition tag_splits :: "string \<Rightarrow> moves \<Rightarrow> dmoves" where
  "tag_splits tn splits = map (\<lambda>(acc_name, acc_amt). (tn, acc_name, round2 acc_amt)) splits"

definition first_account_fallback :: "Tier \<Rightarrow> rat \<Rightarrow> moves \<Rightarrow> moves" where
  "first_account_fallback tier amt splits =
     (if splits = []
      then (case accounts tier of [] \<Rightarrow> splits | a # _ \<Rightarrow> [(Account.name a, round2 amt)])
      else splits)"

fun fill_gaps_detailed :: "Tier list \<Rightarrow> rat \<Rightarrow> dmoves \<Rightarrow> error + (dmoves \<times> rat)" where
  "fill_gaps_detailed [] remaining moves = Inr (moves, remaining)"
| "fill_gaps_detailed (tier # ts) remaining moves =
     (if remaining \<le> 0 then Inr (moves, remaining)
      else let need = gap tier
           in if need \<le> 0 then fill_gaps_detailed ts remaining moves
              else let amt = min remaining need
                   in if 0 < amt
                      then (case allocate_into_accounts tier amt of
                              Inl e \<Rightarrow> Inl e
                            | Inr splits \<Rightarrow>
                                fill_gaps_detailed ts (remaining - amt)
                                  (moves @ tag_splits (Tier.name tier)
                                             (first_account_fallback tier amt splits)))
                      else fill_gaps_detailed ts remaining moves)"

definition allocation_plan_detailed :: "Plan \<Rightarrow> rat \<Rightarrow> error + dmoves" where
  "allocation_plan_detailed p new_cash =
     (case fill_gaps_detailed (sorted_by_priority p) (max 0 new_cash) [] of
        Inl e \<Rightarrow> Inl e
      | Inr (moves, remaining) \<Rightarrow>
          if 0 < remaining
          then (case find is_growth (sorted_by_priority p) of
                  None \<Rightarrow> Inr moves
                | Some growth \<Rightarrow>
                    (case allocate_into_accounts growth remaining of
                       Inl e \<Rightarrow> Inl e
                     | Inr splits \<Rightarrow>
                         Inr (moves @ tag_splits (Tier.name growth)
                                        (first_account_fallback growth remaining splits))))
          else Inr moves)"

text \<open>
  \<open>rebalancing_moves\<close>. The label of a move is \<open>f"{from_tier.name} \<dots> {to_tier.name}"\<close>
  with the arrow U+279C between two blanks, here in its three bytes of UTF-8. The loop
  keeps the two cursors \<open>i\<close> and \<open>j\<close> and writes the reduced amounts back into
  \<open>over\<close> and \<open>under\<close>, as the source does; at least one cursor moves in every step.
\<close>

definition route :: "string \<Rightarrow> string \<Rightarrow> string" where
  "route from_name to_name = from_name @ [CHR '' '', CHR 0xE2, CHR 0x9E, CHR 0x9C, CHR '' ''] @ to_name"

lemma rebalance_step_advances:
  fixes excess need :: rat
  defines "amt \<equiv> round2 (min excess need)"
  shows "(if 0 < amt then excess - amt else excess) \<le> 5 / 1000
       \<or> (if 0 < amt then need - amt else need) \<le> 5 / 1000"
proof -
  have lo: "min excess need - 1 / 200 \<le> amt"
    unfolding amt_def by (rule round2_lower)
  show ?thesis
  proof (cases "excess \<le> need")
    case True
    with lo show ?thesis by (auto simp: min_def)
  next
    case False
    with lo show ?thesis by (auto simp: min_def)
  qed
qed

function rebalance_loop ::
  "(Tier \<times> rat) list \<Rightarrow> (Tier \<times> rat) list \<Rightarrow> nat \<Rightarrow> nat \<Rightarrow> moves \<Rightarrow> moves" where
  "rebalance_loop over_list under_list i j moves =
     (if i < length over_list \<and> j < length under_list
      then (case (over_list ! i, under_list ! j) of
              ((from_tier, excess), (to_tier, need)) \<Rightarrow>
                let amt = round2 (min excess need);
                    moves' = (if 0 < amt
                              then moves @ [(route (Tier.name from_tier) (Tier.name to_tier), amt)]
                              else moves);
                    excess' = (if 0 < amt then excess - amt else excess);
                    need' = (if 0 < amt then need - amt else need)
                in rebalance_loop (over_list[i := (from_tier, excess')]) (under_list[j := (to_tier, need')])
                     (if excess' \<le> 5 / 1000 then i + 1 else i)
                     (if need' \<le> 5 / 1000 then j + 1 else j) moves')
      else moves)"
  by pat_completeness auto
termination
proof (relation "measure (\<lambda>(over_list, under_list, i, j, moves).
                   (length over_list - i) + (length under_list - j))", goal_cases)
  case 1
  show ?case by simp
next
  case (2 over_list under_list i j moves x y from_tier excess to_tier need amt moves' excess' need')
  from 2 have e: "excess' = (if 0 < round2 (min excess need)
                              then excess - round2 (min excess need) else excess)"
    and n: "need' = (if 0 < round2 (min excess need)
                     then need - round2 (min excess need) else need)"
    by simp_all
  have "excess' \<le> 5 / 1000 \<or> need' \<le> 5 / 1000"
    unfolding e n by (rule rebalance_step_advances)
  with 2(1) show ?case by auto
qed

declare rebalance_loop.simps [simp del]

definition rebalancing_moves :: "Plan \<Rightarrow> moves" where
  "rebalancing_moves p =
     (let under_list = map (\<lambda>t. (t, gap t)) (filter (\<lambda>t. 0 < gap t) (sorted_by_priority p));
          over_list = map (\<lambda>t. (t, total t - target t)) (filter (\<lambda>t. target t < total t) (tiers p))
      in if under_list = [] \<or> over_list = [] then []
         else rebalance_loop over_list under_list 0 0 [])"

definition tier_growth :: "Tier \<Rightarrow> int \<Rightarrow> rat" where
  "tier_growth t months = sum_list (map (\<lambda>a. expected_growth a months) (accounts t))"

text \<open>The dict comprehension of \<open>forecast\<close>: keys are inserted in Plan order, a later
  tier of the same name replacing the value of an earlier one.\<close>

definition forecast :: "Plan \<Rightarrow> int \<Rightarrow> (string \<rightharpoonup> rat)" where
  "forecast p months =
     foldl (\<lambda>d t. d(Tier.name t \<mapsto> tier_growth t months)) Map.empty (tiers p)"

section \<open>Quantities the statements speak about\<close>

text \<open>The gaps of a list of tiers together.\<close>

definition total_gap :: "Tier list \<Rightarrow> rat" where
  "total_gap ts = sum_list (map gap ts)"

text \<open>The total a list of account-level moves assigns to the tier of a given name.\<close>

definition assigned_to :: "string \<Rightarrow> dmoves \<Rightarrow> rat" where
  "assigned_to n ms = sum_list (map (\<lambda>m. snd (snd m)) (filter (\<lambda>m. fst m = n) ms))"

section \<open>The greedy matching of the specification\<close>






section \<open>The planning methods as state transformers\<close>

text \<open>
  To speak about what a call leaves behind, the methods are run on the object they are
  called on. A method takes the state of its receiver and returns its result together
  with the state after the call. The tiers of a Plan are objects of their own: the local
  lists of the methods (the tiers sorted by priority, \<open>over\<close>, \<open>under\<close>) hold references
  to them, here their positions in \<open>self.tiers\<close>, and every field is read through the Plan
  at the time of the read. A call of a Tier method runs on the referenced Tier, and the
  state it returns is put back in its place.
\<close>

type_synonym tier_ref = nat

definition deref :: "Plan \<Rightarrow> tier_ref \<Rightarrow> Tier" where
  "deref self k = tiers self ! k"

definition store_tier :: "tier_ref \<Rightarrow> Tier \<Rightarrow> Plan \<Rightarrow> Plan" where
  "store_tier k t self = self\<lparr>tiers := (tiers self)[k := t]\<rparr>"

definition sorted_refs :: "Plan \<Rightarrow> tier_ref list" where
  "sorted_refs self = sort_key (\<lambda>k. priority (deref self k)) [0..<length (tiers self)]"

text \<open>\<open>Tier.allocate_into_accounts\<close> on the state of the tier.\<close>

function distribute_st :: "Tier \<times> rat \<times> moves \<Rightarrow> Tier \<times> rat \<times> moves" where
  "distribute_st (self, remaining, moves) =
     (if 0 < remaining
      then let candidates = candidates_of self
           in (case candidates of
                 [] \<Rightarrow> (self, remaining, moves)
               | a # _ \<Rightarrow>
                   let total_w = total_weight candidates
                   in if total_w \<le> 0
                      then let add = min_room remaining (remaining_room a)
                           in (self, remaining - add, moves @ [(Account.name a, round2 add)])
                      else (case split_pass total_w candidates (remaining, moves, False) of
                              (remaining', moves', progressed) \<Rightarrow>
                                if \<not> progressed then (self, remaining', moves')
                                else distribute_st (self, remaining', moves')))
      else (self, remaining, moves))"
  by pat_completeness auto
termination
proof (relation "measure (\<lambda>(self, remaining, moves). nat \<lceil>remaining * 100\<rceil>)", goal_cases)
  case 1
  show ?case by simp
next
  case (2 self remaining moves candidates a as total_w remaining' rest moves' progressed)
  then have "split_pass total_w candidates (remaining, moves, False) = (remaining', moves', progressed)"
    by simp
  from split_pass_remaining [OF this] 2 have "remaining' \<le> remaining - 1 / 100"
    by simp
  with 2(1) have "nat \<lceil>remaining' * 100\<rceil> < nat \<lceil>remaining * 100\<rceil>" by (rule pass_measure)
  then show ?case by simp
qed

declare distribute_st.simps [simp del]

definition allocate_into_accounts_st :: "rat \<Rightarrow> Tier \<Rightarrow> (error + moves) \<times> Tier" where
  "allocate_into_accounts_st amount self =
     (let remaining = max 0 amount
      in if remaining \<le> 0 \<or> accounts self = [] then (Inr [], self)
         else (case preferred_first self remaining of
                 Inl e \<Rightarrow> (Inl e, self)
               | Inr (moves, remaining') \<Rightarrow>
                   (case distribute_st (self, remaining', moves) of
                      (self', remaining'', moves') \<Rightarrow> (Inr moves', self'))))"

text \<open>\<open>Plan.allocation_plan\<close> and \<open>Plan.allocation_plan_detailed\<close> on the state of the
  Plan.\<close>

fun fill_gaps_st :: "tier_ref list \<Rightarrow> Plan \<times> rat \<times> moves \<Rightarrow> Plan \<times> rat \<times> moves" where
  "fill_gaps_st [] st = st"
| "fill_gaps_st (k # ks) (self, remaining, moves) =
     (if remaining \<le> 0 then (self, remaining, moves)
      else let need = gap (deref self k)
           in if need \<le> 0 then fill_gaps_st ks (self, remaining, moves)
              else let amt = min remaining need
                   in if 0 < amt
                      then fill_gaps_st ks
                             (self, remaining - amt,
                              moves @ [(Tier.name (deref self k), round2 amt)])
                      else fill_gaps_st ks (self, remaining, moves))"

definition allocation_plan_st :: "rat \<Rightarrow> Plan \<Rightarrow> moves \<times> Plan" where
  "allocation_plan_st new_cash self =
     (case fill_gaps_st (sorted_refs self) (self, max 0 new_cash, []) of
        (self', remaining, moves) \<Rightarrow>
          if 0 < remaining
          then (case find (\<lambda>k. is_growth (deref self' k)) (sorted_refs self') of
                  None \<Rightarrow> (moves, self')
                | Some growth \<Rightarrow>
                    (moves @ [(Tier.name (deref self' growth), round2 remaining)], self'))
          else (moves, self'))"

fun fill_gaps_detailed_st ::
  "tier_ref list \<Rightarrow> Plan \<times> rat \<times> dmoves \<Rightarrow> (error + rat \<times> dmoves) \<times> Plan" where
  "fill_gaps_detailed_st [] (self, remaining, moves) = (Inr (remaining, moves), self)"
| "fill_gaps_detailed_st (k # ks) (self, remaining, moves) =
     (if remaining \<le> 0 then (Inr (remaining, moves), self)
      else let need = gap (deref self k)
           in if need \<le> 0 then fill_gaps_detailed_st ks (self, remaining, moves)
              else let amt = min remaining need
                   in if 0 < amt
                      then (case allocate_into_accounts_st amt (deref self k) of
                              (res, tier') \<Rightarrow>
                                let self' = store_tier k tier' self
                                in (case res of
                                      Inl e \<Rightarrow> (Inl e, self')
                                    | Inr splits \<Rightarrow>
                                        fill_gaps_detailed_st ks
                                          (self', remaining - amt,
                                           moves @ tag_splits (Tier.name (deref self' k))
                                                     (first_account_fallback (deref self' k) amt
                                                        splits))))
                      else fill_gaps_detailed_st ks (self, remaining, moves))"

definition allocation_plan_detailed_st :: "rat \<Rightarrow> Plan \<Rightarrow> (error + dmoves) \<times> Plan" where
  "allocation_plan_detailed_st new_cash self =
     (case fill_gaps_detailed_st (sorted_refs self) (self, max 0 new_cash, []) of
        (Inl e, self') \<Rightarrow> (Inl e, self')
      | (Inr (remaining, moves), self') \<Rightarrow>
          if 0 < remaining
          then (case find (\<lambda>k. is_growth (deref self' k)) (sorted_refs self') of
                  None \<Rightarrow> (Inr moves, self')
                | Some growth \<Rightarrow>
                    (case allocate_into_accounts_st remaining (deref self' growth) of
                       (res, tier') \<Rightarrow>
                         let self'' = store_tier growth tier' self'
                         in (case res of
                               Inl e \<Rightarrow> (Inl e, self'')
                             | Inr splits \<Rightarrow>
                                 (Inr (moves @ tag_splits (Tier.name (deref self'' growth))
                                                 (first_account_fallback (deref self'' growth)
                                                    remaining splits)),
                                  self''))))
          else (Inr moves, self'))"

text \<open>\<open>Plan.rebalancing_moves\<close>: \<open>over\<close> and \<open>under\<close> are lists of (tier reference, amount)
  pairs of their own; the loop writes to them, not to the Plan.\<close>

function rebalance_loop_st ::
  "Plan \<times> (tier_ref \<times> rat) list \<times> (tier_ref \<times> rat) list \<times> nat \<times> nat \<times> moves \<Rightarrow> moves \<times> Plan" where
  "rebalance_loop_st (self, over_list, under_list, i, j, moves) =
     (if i < length over_list \<and> j < length under_list
      then (case (over_list ! i, under_list ! j) of
              ((from_tier, excess), (to_tier, need)) \<Rightarrow>
                let amt = round2 (min excess need);
                    moves' = (if 0 < amt
                              then moves @ [(route (Tier.name (deref self from_tier))
                                               (Tier.name (deref self to_tier)), amt)]
                              else moves);
                    excess' = (if 0 < amt then excess - amt else excess);
                    need' = (if 0 < amt then need - amt else need)
                in rebalance_loop_st
                     (self, over_list[i := (from_tier, excess')], under_list[j := (to_tier, need')],
                      (if excess' \<le> 5 / 1000 then i + 1 else i),
                      (if need' \<le> 5 / 1000 then j + 1 else j), moves'))
      else (moves, self))"
  by pat_completeness auto
termination
proof (relation "measure (\<lambda>(self, over_list, under_list, i, j, moves).
                   (length over_list - i) + (length under_list - j))", goal_cases)
  case 1
  show ?case by simp
next
  case (2 self over_list under_list i j moves x y from_tier excess to_tier need amt moves' excess' need')
  from 2 have e: "excess' = (if 0 < round2 (min excess need)
                              then excess - round2 (min excess need) else excess)"
    and n: "need' = (if 0 < round2 (min excess need)
                     then need - round2 (min excess need) else need)"
    by simp_all
  have "excess' \<le> 5 / 1000 \<or> need' \<le> 5 / 1000"
    unfolding e n by (rule rebalance_step_advances)
  with 2(1) show ?case by auto
qed

declare rebalance_loop_st.simps [simp del]

definition rebalancing_moves_st :: "Plan \<Rightarrow> moves \<times> Plan" where
  "rebalancing_moves_st self =
     (let under_list = map (\<lambda>k. (k, gap (deref self k)))
                         (filter (\<lambda>k. 0 < gap (deref self k)) (sorted_refs self));
          over_list = map (\<lambda>k. (k, total (deref self k) - target (deref self k)))
                        (filter (\<lambda>k. target (deref self k) < total (deref self k))
                           [0..<length (tiers self)])
      in if under_list = [] \<or> over_list = [] then ([], self)
         else rebalance_loop_st (self, over_list, under_list, 0, 0, []))"

text \<open>\<open>Plan.forecast\<close>: the comprehension reads every tier and every account once.\<close>

definition forecast_st :: "int \<Rightarrow> Plan \<Rightarrow> (string \<rightharpoonup> rat) \<times> Plan" where
  "forecast_st months self =
     (foldl (\<lambda>d k. d(Tier.name (deref self k) \<mapsto> tier_growth (deref self k) months))
        Map.empty [0..<length (tiers self)],
      self)"

section \<open>Sample accounts, tiers and plans\<close>

definition mk_account :: "string \<Rightarrow> rat \<Rightarrow> rat \<Rightarrow> rat \<Rightarrow> rat option \<Rightarrow> Account" where
  "mk_account n b y w c =
     \<lparr>Account.name = n, balance = b, apy_pct = y, notes_str = [], alloc_weight = w,
      account_target = c\<rparr>"

definition mk_tier ::
  "string \<Rightarrow> string \<Rightarrow> rat \<Rightarrow> int \<Rightarrow> Account list \<Rightarrow> string option \<Rightarrow> Tier" where
  "mk_tier n u g k as pa =
     \<lparr>Tier.name = n, purpose = u, target = g, priority = k, accounts = as,
      preferred_account = pa\<rparr>"

definition mk_plan :: "Tier list \<Rightarrow> Plan" where
  "mk_plan ts = \<lparr>tiers = ts, last_updated = ''2025-01-01''\<rparr>"

text \<open>The scenario of the specification: balance 10000 at 6 percent.\<close>

definition savings :: Account where
  "savings = mk_account ''Savings'' 10000 6 1 None"

definition savings_plan :: Plan where
  "savings_plan =
     mk_plan [mk_tier ''Tier 1'' ''Buffer'' 30000 1 [savings, mk_account ''Checking'' 500 0 1 None] None,
              mk_tier ''Tier 2'' ''Emergency fund'' 30000 2 [] None]"

text \<open>A tier whose first account carries a note.\<close>

definition noted_tier :: Tier where
  "noted_tier =
     mk_tier ''Tier 1'' ''Buffer'' 30000 1
       [(mk_account ''Checking'' 100 2 1 None)\<lparr>notes_str := ''Monthly expenses''\<rparr>,
        mk_account ''Savings'' 0 4 2 (Some 23000)] None"

text \<open>A tier whose preferred account was deleted (or renamed) after it was chosen.\<close>

definition stale_tier :: Tier where
  "stale_tier =
     mk_tier ''Tier 1'' ''Buffer'' 30000 1 [mk_account ''Checking'' 0 0 1 None] (Some ''Savings'')"

text \<open>A plan with one overfunded and two underfunded tiers, and a plan with every target
  met.\<close>

definition uneven_plan :: Plan where
  "uneven_plan =
     mk_plan [mk_tier ''Tier 3'' ''Capital'' 50 3 [mk_account ''Bonds'' 10 4 1 None] None,
              mk_tier ''Tier 1'' ''Buffer'' 100 1 [mk_account ''Checking'' 150 0 1 None] None,
              mk_tier ''Tier 2'' ''Emergency'' 100 2 [mk_account ''Savings'' 70 4 1 None] None]"


text \<open>A single unfunded tier; and a plan whose targets are met, with a tier the overflow
  rule picks.\<close>

definition tiny_plan :: Plan where
  "tiny_plan = mk_plan [mk_tier ''Tier 1'' ''Buffer'' 1 1 [mk_account ''Checking'' 0 0 1 None] None]"

definition overflow_plan :: Plan where
  "overflow_plan =
     mk_plan [mk_tier ''Tier 4'' ''Income'' 0 4 [mk_account ''Bonds'' 0 4 1 None] None,
              mk_tier ''Tier 1'' ''Buffer'' 100 1 [mk_account ''Checking'' 100 0 1 None] None]"

text \<open>A plan whose overflow tier was added without accounts.\<close>

definition empty_growth_plan :: Plan where
  "empty_growth_plan =
     mk_plan [mk_tier ''Tier 1'' ''Buffer'' 100 1 [mk_account ''Checking'' 100 0 1 None] None,
              mk_tier ''Tier 4'' ''Income'' 0 4 [] None]"


definition preferred_tier :: Tier where
  "preferred_tier =
     mk_tier ''Tier 1'' ''Buffer'' 1000 1
       [mk_account ''Checking'' 0 0 1 None, mk_account ''Savings'' 0 4 2 None] (Some ''Savings'')"

definition zero_weight_tier :: Tier where
  "zero_weight_tier =
     mk_tier ''Tier 2'' ''Emergency'' 1000 2
       [mk_account ''Savings'' 0 4 0 (Some 1), mk_account ''Brokerage'' 0 0 0 None] None"

text \<open>A plan of one tier, named as the overflow rule wants it, with four accounts of equal
  weight and a gap of one cent.\<close>

definition four_account_plan :: Plan where
  "four_account_plan =
     mk_plan [mk_tier ''Tier 4'' ''Income'' (1 / 100) 4
                [mk_account ''Bonds'' 0 4 1 None, mk_account ''Stocks'' 0 3 1 None,
                 mk_account ''REITs'' 0 4 1 None, mk_account ''Crypto'' 0 40 1 None] None]"

text \<open>The two-tier scenario of the specification, each tier with a preferred account.\<close>

definition waterfall_plan :: Plan where
  "waterfall_plan =
     mk_plan [mk_tier ''Tier 2'' ''Emergency'' 50 2 [mk_account ''Savings'' 0 4 1 None] (Some ''Savings''),
              mk_tier ''Tier 1'' ''Buffer'' 100 1 [mk_account ''Checking'' 0 0 1 None] (Some ''Checking'')]"

section \<open>Growth forecast\<close>







section \<open>Upsert of an account\<close>

lemma upsert_found:
  "i < length as \<Longrightarrow> Account.name (as ! i) = nm \<Longrightarrow> \<forall>j<i. Account.name (as ! j) \<noteq> nm \<Longrightarrow>
   upsert nm bal apy nts w tgt as = as[i := update_account bal apy nts w tgt (as ! i)]"
proof (induction as arbitrary: i)
  case Nil
  then show ?case by simp
next
  case (Cons a as)
  show ?case
  proof (cases i)
    case 0
    with Cons.prems show ?thesis by simp
  next
    case (Suc k)
    with Cons.prems have "Account.name a \<noteq> nm" by auto
    moreover have "upsert nm bal apy nts w tgt as = as[k := update_account bal apy nts w tgt (as ! k)]"
      using Cons.prems Suc by (intro Cons.IH) auto
    ultimately show ?thesis using Suc by simp
  qed
qed

lemma upsert_absent:
  "nm \<notin> set (map Account.name as) \<Longrightarrow>
   upsert nm bal apy nts w tgt as = as @ [new_account nm bal apy nts w tgt]"
  by (induction as) auto

lemma update_account_fields:
  "update_account bal apy nts w tgt a =
     a\<lparr>balance := bal,
       apy_pct := (case apy of None \<Rightarrow> apy_pct a | Some v \<Rightarrow> v),
       notes_str := (if nts = [] then notes_str a else nts),
       alloc_weight := (case w of None \<Rightarrow> alloc_weight a | Some v \<Rightarrow> v),
       account_target := (case tgt of None \<Rightarrow> account_target a | Some v \<Rightarrow> Some v)\<rparr>"
  by (simp add: update_account_def Let_def split: option.splits)

text \<open>
  Claim C10, as amended. When an account of the given name exists, the first such account
  gets the supplied balance; \<open>apy_pct\<close>, \<open>alloc_weight\<close> and \<open>account_target\<close> are
  replaced exactly when the argument is not \<open>None\<close>, and \<open>notes\<close>, a string, exactly
  when it is not empty; every other account and every other field of the tier stays as it
  was. When no account has the name, one account is appended with the supplied name,
  balance, notes and cap, with \<open>apy_pct\<close> 0 when omitted, and with the supplied weight or
  1 when omitted (a supplied weight of zero is left out of the statement).
\<close>

theorem add_or_update_account_patch:
  "(\<forall>i < length (accounts t).
      Account.name (accounts t ! i) = nm \<and> (\<forall>j<i. Account.name (accounts t ! j) \<noteq> nm) \<longrightarrow>
      accounts (add_or_update_account t nm bal apy nts w tgt) =
        (accounts t)[i := (accounts t ! i)
           \<lparr>balance := bal,
            apy_pct := (case apy of None \<Rightarrow> apy_pct (accounts t ! i) | Some v \<Rightarrow> v),
            notes_str := (if nts = [] then notes_str (accounts t ! i) else nts),
            alloc_weight := (case w of None \<Rightarrow> alloc_weight (accounts t ! i) | Some v \<Rightarrow> v),
            account_target :=
              (case tgt of None \<Rightarrow> account_target (accounts t ! i) | Some v \<Rightarrow> Some v)\<rparr>])
   \<and> (nm \<notin> set (map Account.name (accounts t)) \<and> w \<noteq> Some 0 \<longrightarrow>
        accounts (add_or_update_account t nm bal apy nts w tgt) =
          accounts t @
            [\<lparr>Account.name = nm, balance = bal,
              apy_pct = (case apy of None \<Rightarrow> 0 | Some v \<Rightarrow> v), notes_str = nts,
              alloc_weight = (case w of None \<Rightarrow> 1 | Some v \<Rightarrow> v), account_target = tgt\<rparr>])
   \<and> Tier.name (add_or_update_account t nm bal apy nts w tgt) = Tier.name t
   \<and> purpose (add_or_update_account t nm bal apy nts w tgt) = purpose t
   \<and> target (add_or_update_account t nm bal apy nts w tgt) = target t
   \<and> priority (add_or_update_account t nm bal apy nts w tgt) = priority t
   \<and> preferred_account (add_or_update_account t nm bal apy nts w tgt) = preferred_account t"
proof (intro conjI allI impI)
  fix i
  assume "i < length (accounts t)"
    and "Account.name (accounts t ! i) = nm \<and> (\<forall>j<i. Account.name (accounts t ! j) \<noteq> nm)"
  then show "accounts (add_or_update_account t nm bal apy nts w tgt) =
        (accounts t)[i := (accounts t ! i)
           \<lparr>balance := bal,
            apy_pct := (case apy of None \<Rightarrow> apy_pct (accounts t ! i) | Some v \<Rightarrow> v),
            notes_str := (if nts = [] then notes_str (accounts t ! i) else nts),
            alloc_weight := (case w of None \<Rightarrow> alloc_weight (accounts t ! i) | Some v \<Rightarrow> v),
            account_target :=
              (case tgt of None \<Rightarrow> account_target (accounts t ! i) | Some v \<Rightarrow> Some v)\<rparr>]"
    using upsert_found [of i "accounts t" nm bal apy nts w tgt]
    by (simp add: add_or_update_account_def update_account_fields)
next
  assume a: "nm \<notin> set (map Account.name (accounts t)) \<and> w \<noteq> Some 0"
  have "py_or apy 0 = (case apy of None \<Rightarrow> 0 | Some v \<Rightarrow> v)"
    by (cases apy) auto
  moreover have "py_or w 1 = (case w of None \<Rightarrow> 1 | Some v \<Rightarrow> v)"
    using a by (cases w) auto
  ultimately show "accounts (add_or_update_account t nm bal apy nts w tgt) =
          accounts t @
            [\<lparr>Account.name = nm, balance = bal,
              apy_pct = (case apy of None \<Rightarrow> 0 | Some v \<Rightarrow> v), notes_str = nts,
              alloc_weight = (case w of None \<Rightarrow> 1 | Some v \<Rightarrow> v), account_target = tgt\<rparr>]"
    using a upsert_absent [of nm "accounts t" bal apy nts w tgt]
    by (simp add: add_or_update_account_def new_account_def)
qed (simp_all add: add_or_update_account_def)

theorem add_or_update_account_patch_witness:
  "1 < length (accounts noted_tier)
   \<and> Account.name (accounts noted_tier ! 1) = ''Savings''
   \<and> Account.name (accounts noted_tier ! 0) \<noteq> ''Savings''
   \<and> accounts (add_or_update_account noted_tier ''Savings'' 750 None ''FDIC'' (Some 0) None) =
       [(mk_account ''Checking'' 100 2 1 None)\<lparr>notes_str := ''Monthly expenses''\<rparr>,
        (mk_account ''Savings'' 750 4 0 (Some 23000))\<lparr>notes_str := ''FDIC''\<rparr>]
   \<and> ''Bonds'' \<notin> set (map Account.name (accounts noted_tier)) \<and> Some (2::rat) \<noteq> Some 0
   \<and> accounts (add_or_update_account noted_tier ''Bonds'' 10 None [] (Some 2) (Some 500)) =
        accounts noted_tier @ [mk_account ''Bonds'' 10 0 2 (Some 500)]"
proof -
  note defs = noted_tier_def mk_tier_def mk_account_def
  have "accounts (add_or_update_account noted_tier ''Savings'' 750 None ''FDIC'' (Some 0) None) =
       [(mk_account ''Checking'' 100 2 1 None)\<lparr>notes_str := ''Monthly expenses''\<rparr>,
        (mk_account ''Savings'' 750 4 0 (Some 23000))\<lparr>notes_str := ''FDIC''\<rparr>]"
    using add_or_update_account_patch
      [of noted_tier "''Savings''" 750 None "''FDIC''" "Some 0" None,
       THEN conjunct1, rule_format, of 1]
    by (simp add: defs)
  moreover
  have "accounts (add_or_update_account noted_tier ''Bonds'' 10 None [] (Some 2) (Some 500)) =
        accounts noted_tier @ [mk_account ''Bonds'' 10 0 2 (Some 500)]"
    using add_or_update_account_patch
      [of noted_tier "''Bonds''" 10 None "[]" "Some 2" "Some 500",
       THEN conjunct2, THEN conjunct1]
    by (simp add: defs)
  ultimately show ?thesis by (simp add: defs)
qed

text \<open>
  Claim C10 as stated fails for \<open>notes\<close>: the empty string is not \<open>None\<close>, yet an
  update that supplies it leaves the stored note in place.
\<close>

theorem add_or_update_account_empty_notes_counterexample:
  "notes_str (accounts (add_or_update_account noted_tier ''Checking'' 250 None [] None None) ! 0)
     = ''Monthly expenses''
   \<and> notes_str (accounts (add_or_update_account noted_tier ''Checking'' 250 None [] None None) ! 0)
     \<noteq> []"
  by (simp add: noted_tier_def mk_tier_def mk_account_def add_or_update_account_def
        update_account_def)

text \<open>
  The new-account branch reads \<open>alloc_weight or 1.0\<close>, so a supplied weight of zero is
  taken for an omitted one.
\<close>

lemma add_or_update_account_zero_weight:
  "alloc_weight (last (accounts (add_or_update_account noted_tier ''Bonds'' 10 None [] (Some 0) None))) = 1"
  by (simp add: noted_tier_def mk_tier_def mk_account_def add_or_update_account_def
        new_account_def)

section \<open>Intra-tier distribution: when it returns\<close>

lemma preferred_first_raises_iff:
  "(\<exists>e. preferred_first t remaining = Inl e) \<longleftrightarrow>
     (\<exists>pn. preferred_account t = Some pn \<and> pn \<noteq> [] \<and> pn \<notin> set (map Account.name (accounts t)))"
proof (cases "preferred_account t")
  case None
  then show ?thesis by (simp add: preferred_first_def)
next
  case (Some pn)
  show ?thesis
  proof (cases "find (\<lambda>a. Account.name a = pn) (accounts t)")
    case None
    then have "pn \<notin> set (map Account.name (accounts t))"
      by (auto simp: find_None_iff)
    with None Some show ?thesis by (simp add: preferred_first_def)
  next
    case (Some pa)
    then have "pn \<in> set (map Account.name (accounts t))"
      by (auto simp: find_Some_iff)
    with Some \<open>preferred_account t = Some pn\<close> show ?thesis
      by (simp add: preferred_first_def Let_def)
  qed
qed

text \<open>
  \<open>allocate_into_accounts\<close> is a total function of the model: its loop was shown to
  terminate for every tier and every amount. It returns a list in every state but one:
  a positive amount, at least one account, and a non-empty preferred name that no account
  carries.
\<close>

lemma allocate_into_accounts_raises_iff:
  "(\<exists>e. allocate_into_accounts t amount = Inl e) \<longleftrightarrow>
     0 < amount \<and> accounts t \<noteq> [] \<and>
     (\<exists>pn. preferred_account t = Some pn \<and> pn \<noteq> [] \<and> pn \<notin> set (map Account.name (accounts t)))"
proof (cases "max 0 amount \<le> 0 \<or> accounts t = []")
  case True
  then show ?thesis by (auto simp: allocate_into_accounts_def)
next
  case False
  then have "(\<exists>e. allocate_into_accounts t amount = Inl e) \<longleftrightarrow>
             (\<exists>e. preferred_first t (max 0 amount) = Inl e)"
    by (auto simp: allocate_into_accounts_def Let_def split: sum.splits prod.splits)
  with False show ?thesis by (auto simp: preferred_first_raises_iff)
qed

text \<open>
  Claim C8 at the state it names last: the preferred account of the tier is no longer among
  its accounts. \<open>next(...)\<close> without a default raises \<open>StopIteration\<close> out of
  \<open>allocate_into_accounts\<close>.
\<close>

theorem allocate_into_accounts_stale_preferred:
  "allocate_into_accounts stale_tier 10 = Inl StopIteration"
  by (simp add: allocate_into_accounts_def preferred_first_def stale_tier_def mk_tier_def
        mk_account_def)

section \<open>Rebalancing against the greedy matching of the specification\<close>

lemma rebalance_loop_done:
  "\<not> (i < length over_list \<and> j < length under_list) \<Longrightarrow>
   rebalance_loop over_list under_list i j moves = moves"
  by (subst rebalance_loop.simps) auto






section \<open>Waterfall allocation\<close>

lemma gap_nonneg: "0 \<le> gap t"
  by (simp add: gap_def)

lemma total_gap_nonneg: "0 \<le> total_gap ts"
  by (induction ts) (simp_all add: total_gap_def gap_nonneg)

lemma sum_list_map_insort_key:
  fixes f :: "'a \<Rightarrow> rat"
  shows "sum_list (map f (insort_key k x xs)) = f x + sum_list (map f xs)"
  by (induction xs) (simp_all add: ac_simps)

lemma sum_list_map_sort_key:
  fixes f :: "'a \<Rightarrow> rat"
  shows "sum_list (map f (sort_key k xs)) = sum_list (map f xs)"
  by (induction xs) (simp_all add: sum_list_map_insort_key)

lemma total_gap_sorted: "total_gap (sorted_by_priority p) = total_gap (tiers p)"
  by (simp add: total_gap_def sorted_by_priority_def sum_list_map_sort_key)

lemma set_sorted_by_priority: "set (sorted_by_priority p) = set (tiers p)"
  by (simp add: sorted_by_priority_def)

lemma fill_gaps_Cons:
  "fill_gaps (t # ts) r ms =
     (if r \<le> 0 then (ms, r)
      else if gap t \<le> 0 then fill_gaps ts r ms
      else fill_gaps ts (r - min r (gap t)) (ms @ [(Tier.name t, round2 (min r (gap t)))]))"
  by (simp add: Let_def min_def)

lemma fill_gaps_Nil_remaining: "r \<le> 0 \<Longrightarrow> fill_gaps ts r ms = (ms, r)"
  by (cases ts) simp_all

text \<open>What the loop over the tiers leaves and lists, for any starting cash and list.\<close>

lemma fill_gaps_bounds:
  assumes "0 \<le> r" "fill_gaps ts r ms = (ms', r')"
  shows "r' = max 0 (r - total_gap ts)
       \<and> (\<exists>new. ms' = ms @ new
             \<and> sum_list (map snd new) \<le> (r - r') + of_nat (length new) / 200
             \<and> (\<forall>e \<in> set new. \<exists>t \<in> set ts. fst e = Tier.name t \<and> snd e \<le> round2 (gap t)))"
  using assms
proof (induction ts arbitrary: r ms)
  case Nil
  then show ?case by (simp add: total_gap_def)
next
  case (Cons t ts)
  have tg: "total_gap (t # ts) = gap t + total_gap ts" by (simp add: total_gap_def)
  show ?case
  proof (cases "r \<le> 0")
    case True
    with Cons.prems have "ms' = ms" "r' = r" "r = 0" by simp_all
    then show ?thesis using total_gap_nonneg [of "t # ts"] by simp
  next
    case rpos: False
    show ?thesis
    proof (cases "gap t \<le> 0")
      case True
      with gap_nonneg [of t] have g0: "gap t = 0" by simp
      from Cons.prems(2) [unfolded fill_gaps_Cons] rpos True have "fill_gaps ts r ms = (ms', r')"
        by simp
      from Cons.IH [OF Cons.prems(1) this] show ?thesis
        by (auto simp: tg g0)
    next
      case gpos: False
      define amt where "amt = min r (gap t)"
      have amt: "0 < amt" "amt \<le> r" "amt \<le> gap t" using rpos gpos by (auto simp: amt_def)
      from Cons.prems(2) [unfolded fill_gaps_Cons] rpos gpos
      have f: "fill_gaps ts (r - amt) (ms @ [(Tier.name t, round2 amt)]) = (ms', r')"
        by (simp add: amt_def)
      have "0 \<le> r - amt" using amt by simp
      note ih = Cons.IH [OF this f]
      have r': "r' = max 0 (r - amt - total_gap ts)"
        using ih by (rule conjunct1)
      from ih [THEN conjunct2] obtain new where
        n: "ms' = (ms @ [(Tier.name t, round2 amt)]) @ new
          \<and> sum_list (map snd new) \<le> (r - amt - r') + of_nat (length new) / 200
          \<and> (\<forall>e \<in> set new. \<exists>t \<in> set ts. fst e = Tier.name t \<and> snd e \<le> round2 (gap t))" ..
      from n have new: "ms' = (ms @ [(Tier.name t, round2 amt)]) @ new" by (rule conjunct1)
      from n have s: "sum_list (map snd new) \<le> (r - amt - r') + of_nat (length new) / 200"
        by (elim conjE)
      from n have b: "\<forall>e \<in> set new. \<exists>t \<in> set ts. fst e = Tier.name t \<and> snd e \<le> round2 (gap t)"
        by (elim conjE)
      have 1: "r' = max 0 (r - total_gap (t # ts))"
      proof (cases "r \<le> gap t")
        case True
        then have "amt = r" by (simp add: amt_def)
        then have "r' = max 0 (- total_gap ts)" unfolding r' by simp
        with total_gap_nonneg [of ts] have "r' = 0" by simp
        moreover have "r - total_gap (t # ts) \<le> 0"
          using True total_gap_nonneg [of ts] unfolding tg by linarith
        ultimately show ?thesis by simp
      next
        case False
        then have "amt = gap t" by (simp add: amt_def)
        then have "r - amt - total_gap ts = r - total_gap (t # ts)" unfolding tg by linarith
        then show ?thesis unfolding r' by (rule arg_cong)
      qed
      define new' where "new' = (Tier.name t, round2 amt) # new"
      have 2: "ms' = ms @ new'" by (simp add: new new'_def)
      have "round2 amt \<le> amt + 1 / 200" by (rule round2_upper)
      with s have 3: "sum_list (map snd new') \<le> (r - r') + of_nat (length new') / 200"
        by (simp add: new'_def field_simps)
      have "round2 amt \<le> round2 (gap t)" using amt(3) by (rule round2_mono)
      with b have 4: "\<forall>e \<in> set new'. \<exists>u \<in> set (t # ts). fst e = Tier.name u \<and> snd e \<le> round2 (gap u)"
        by (auto simp: new'_def)
      from 1 2 3 4 show ?thesis by blast
    qed
  qed
qed

text \<open>When the cash exceeds every gap together, every positive gap is listed in full.\<close>

lemma fill_gaps_all_filled:
  "total_gap ts < r \<Longrightarrow>
   fill_gaps ts r ms =
     (ms @ map (\<lambda>t. (Tier.name t, round2 (gap t))) (filter (\<lambda>t. 0 < gap t) ts), r - total_gap ts)"
proof (induction ts arbitrary: r ms)
  case Nil
  then show ?case by (simp add: total_gap_def)
next
  case (Cons t ts)
  have tg: "total_gap (t # ts) = gap t + total_gap ts" by (simp add: total_gap_def)
  have rpos: "0 < r" using Cons.prems total_gap_nonneg [of "t # ts"] by simp
  show ?case
  proof (cases "gap t \<le> 0")
    case True
    with gap_nonneg [of t] have g0: "gap t = 0" by simp
    with Cons.prems have "total_gap ts < r" by (simp add: tg)
    from Cons.IH [OF this, of ms] rpos g0 show ?thesis by (simp add: fill_gaps_Cons tg)
  next
    case False
    have "gap t < r" using Cons.prems total_gap_nonneg [of ts] by (simp add: tg)
    then have m: "min r (gap t) = gap t" by simp
    have "total_gap ts < r - gap t" using Cons.prems by (simp add: tg)
    then have "fill_gaps ts (r - gap t) (ms @ [(Tier.name t, round2 (gap t))]) =
      ((ms @ [(Tier.name t, round2 (gap t))]) @
         map (\<lambda>t. (Tier.name t, round2 (gap t))) (filter (\<lambda>t. 0 < gap t) ts),
       r - gap t - total_gap ts)"
      by (rule Cons.IH)
    moreover have "r - gap t - total_gap ts = r - total_gap (t # ts)" unfolding tg by linarith
    moreover have "0 < gap t" using False by simp
    ultimately show ?thesis using rpos False
      by (simp add: fill_gaps_Cons m)
  qed
qed

lemma allocation_plan_split:
  assumes "fill_gaps (sorted_by_priority p) (max 0 A) [] = (ms, r)"
  shows "allocation_plan p A =
           ms @ (if 0 < r then (case find is_growth (sorted_by_priority p) of
                                 None \<Rightarrow> [] | Some g \<Rightarrow> [(Tier.name g, round2 r)])
                 else [])"
  using assms by (simp add: allocation_plan_def split: option.splits)

text \<open>
  Claim C1, as amended. For a non-negative amount \<open>A\<close> the amounts of
  \<open>allocation_plan\<close> sum to at most \<open>A\<close> plus half a cent for each returned entry
  (an entry is rounded to two decimals, the exact amount is what is taken from the cash).
  Every entry is at most the rounded gap of a tier of that name, except that the last
  entry may be the overflow entry, which exists only when \<open>A\<close> exceeds all gaps together
  and is the rounded leftover.
\<close>

theorem allocation_plan_bounds:
  assumes "0 \<le> A"
  shows "sum_list (map snd (allocation_plan p A))
           \<le> A + of_nat (length (allocation_plan p A)) / 200
       \<and> (\<forall>i < length (allocation_plan p A).
             (\<exists>t \<in> set (tiers p).
                fst (allocation_plan p A ! i) = Tier.name t
                \<and> snd (allocation_plan p A ! i) \<le> round2 (gap t))
             \<or> (Suc i = length (allocation_plan p A) \<and> total_gap (tiers p) < A
                \<and> snd (allocation_plan p A ! i) = round2 (A - total_gap (tiers p))))"
proof -
  obtain ms r where f: "fill_gaps (sorted_by_priority p) (max 0 A) [] = (ms, r)"
    by (cases "fill_gaps (sorted_by_priority p) (max 0 A) []")
  have A: "max 0 A = A" using assms by simp
  note fb = fill_gaps_bounds [OF _ f, unfolded A, OF assms]
  have r: "r = max 0 (A - total_gap (tiers p))"
    using fb by (simp add: total_gap_sorted)
  have s: "sum_list (map snd ms) \<le> (A - r) + of_nat (length ms) / 200"
    using fb by simp
  have b: "\<forall>e \<in> set ms. \<exists>t \<in> set (tiers p). fst e = Tier.name t \<and> snd e \<le> round2 (gap t)"
    using fb by (simp add: set_sorted_by_priority)
  define over where
    "over = (if 0 < r then (case find is_growth (sorted_by_priority p) of
                              None \<Rightarrow> [] | Some g \<Rightarrow> [(Tier.name g, round2 r)])
             else [])"
  have ap: "allocation_plan p A = ms @ over"
    unfolding over_def by (rule allocation_plan_split [OF f])
  have r0: "0 \<le> r" using r by simp
  have so: "sum_list (map snd over) \<le> r + of_nat (length over) / 200"
    using r0 round2_upper [of r] by (auto simp: over_def split: option.splits)
  have 1: "sum_list (map snd (allocation_plan p A))
           \<le> A + of_nat (length (allocation_plan p A)) / 200"
    using s so by (simp add: ap add_divide_distrib)
  have 2: "(\<exists>t \<in> set (tiers p).
                fst (allocation_plan p A ! i) = Tier.name t
                \<and> snd (allocation_plan p A ! i) \<le> round2 (gap t))
             \<or> (Suc i = length (allocation_plan p A) \<and> total_gap (tiers p) < A
                \<and> snd (allocation_plan p A ! i) = round2 (A - total_gap (tiers p)))"
    if i: "i < length (allocation_plan p A)" for i
  proof (cases "i < length ms")
    case True
    then have "allocation_plan p A ! i \<in> set ms" by (simp add: ap nth_append)
    with b show ?thesis by blast
  next
    case False
    with i have ne: "over \<noteq> []" by (auto simp: ap)
    then have rpos: "0 < r" by (auto simp: over_def split: if_splits)
    obtain g :: Tier where o: "over = [(Tier.name g, round2 r)]"
    proof (cases "find is_growth (sorted_by_priority p)")
      case None
      with ne show ?thesis by (simp add: over_def)
    next
      case (Some g)
      with rpos that [of g] show ?thesis by (simp add: over_def)
    qed
    from False i have "i = length ms" by (simp add: ap o)
    then have "Suc i = length (allocation_plan p A)" "allocation_plan p A ! i = (Tier.name g, round2 r)"
      by (simp_all add: ap o)
    moreover from rpos r have "total_gap (tiers p) < A" "r = A - total_gap (tiers p)"
      by (simp_all add: max_def split: if_splits)
    ultimately show ?thesis by simp
  qed
  from 1 2 show ?thesis by blast
qed

theorem allocation_plan_bounds_witness:
  "(0::rat) \<le> 1 / 128
   \<and> allocation_plan tiny_plan (1 / 128) = [(''Tier 1'', 1 / 100)]
   \<and> sum_list (map snd (allocation_plan tiny_plan (1 / 128))) \<le> 1 / 128 + 1 / 200
   \<and> (0::rat) \<le> 105
   \<and> length (allocation_plan overflow_plan 105) = 1
   \<and> total_gap (tiers overflow_plan) < 105
   \<and> snd (allocation_plan overflow_plan 105 ! 0) = 105"
proof -
  have a: "allocation_plan tiny_plan (1 / 128) = [(''Tier 1'', 1 / 100)]"
    by code_simp
  have b: "allocation_plan overflow_plan 105 = [(''Tier 4'', 105)]"
    by code_simp
  have c: "total_gap (tiers overflow_plan) = 0"
    by (simp add: overflow_plan_def mk_plan_def mk_tier_def mk_account_def total_gap_def gap_def
          total_def)
  from allocation_plan_bounds [of "1 / 128" tiny_plan]
  have "sum_list (map snd (allocation_plan tiny_plan (1 / 128)))
          \<le> 1 / 128 + of_nat (length (allocation_plan tiny_plan (1 / 128))) / 200"
    by simp
  then have d: "sum_list (map snd (allocation_plan tiny_plan (1 / 128))) \<le> 1 / 128 + 1 / 200"
    by (simp add: a)
  have g: "\<forall>t \<in> set (tiers overflow_plan). gap t = 0"
    by (simp add: overflow_plan_def mk_plan_def mk_tier_def mk_account_def gap_def total_def)
  have "0 < length (allocation_plan overflow_plan 105)" by (simp add: b)
  from allocation_plan_bounds [of 105 overflow_plan, THEN conjunct2, rule_format, OF _ this]
  have "(\<exists>t \<in> set (tiers overflow_plan). snd (allocation_plan overflow_plan 105 ! 0) \<le> round2 (gap t))
        \<or> snd (allocation_plan overflow_plan 105 ! 0) = round2 (105 - total_gap (tiers overflow_plan))"
    by auto
  with g have "snd (allocation_plan overflow_plan 105 ! 0) \<le> round2 0
        \<or> snd (allocation_plan overflow_plan 105 ! 0) = round2 (105 - 0)"
    unfolding c by auto
  moreover have "round2 (105 - 0) = 105" by code_simp
  ultimately have e: "snd (allocation_plan overflow_plan 105 ! 0) = 105"
    by (simp add: b round2_zero)
  from a b c d e show ?thesis by simp
qed

text \<open>
  Claim C1 as stated fails twice. A cash amount of 1/128 against a gap of 1 is listed as
  one cent, more than the cash; and cash beyond every gap is listed for the overflow tier,
  whose own gap is zero.
\<close>

theorem allocation_plan_counterexample:
  "(0::rat) \<le> 1 / 128
   \<and> \<not> sum_list (map snd (allocation_plan tiny_plan (1 / 128))) \<le> 1 / 128
   \<and> allocation_plan overflow_plan 5 = [(''Tier 4'', 5)]
   \<and> Tier.name (tiers overflow_plan ! 0) = ''Tier 4''
   \<and> \<not> 5 \<le> gap (tiers overflow_plan ! 0)"
proof -
  have a: "allocation_plan tiny_plan (1 / 128) = [(''Tier 1'', 1 / 100)]"
    by code_simp
  have b: "allocation_plan overflow_plan 5 = [(''Tier 4'', 5)]"
    by code_simp
  have c: "Tier.name (tiers overflow_plan ! 0) = ''Tier 4''" "gap (tiers overflow_plan ! 0) = 0"
    by (simp_all add: overflow_plan_def mk_plan_def mk_tier_def mk_account_def gap_def total_def)
  show ?thesis unfolding a b c by simp
qed

section \<open>Overflow beyond every gap\<close>

lemma fill_gaps_detailed_Cons:
  "fill_gaps_detailed (t # ts) r ms =
     (if r \<le> 0 then Inr (ms, r)
      else if gap t \<le> 0 then fill_gaps_detailed ts r ms
      else (case allocate_into_accounts t (min r (gap t)) of
              Inl e \<Rightarrow> Inl e
            | Inr splits \<Rightarrow>
                fill_gaps_detailed ts (r - min r (gap t))
                  (ms @ tag_splits (Tier.name t)
                          (first_account_fallback t (min r (gap t)) splits))))"
proof (cases "r \<le> gap t")
  case True
  then have "min r (gap t) = r" by simp
  then show ?thesis by (simp add: Let_def cong: sum.case_cong)
next
  case False
  then have "min r (gap t) = gap t" by simp
  then show ?thesis by (simp add: Let_def cong: sum.case_cong)
qed

lemma fill_gaps_detailed_remaining:
  assumes "total_gap ts < r" "fill_gaps_detailed ts r ms = Inr (ms', r')"
  shows "r' = r - total_gap ts"
  using assms
proof (induction ts arbitrary: r ms)
  case Nil
  then show ?case by (simp add: total_gap_def)
next
  case (Cons t ts)
  have tg: "total_gap (t # ts) = gap t + total_gap ts" by (simp add: total_gap_def)
  have rpos: "0 < r" using Cons.prems(1) total_gap_nonneg [of "t # ts"] by simp
  show ?case
  proof (cases "gap t \<le> 0")
    case True
    with gap_nonneg [of t] have g0: "gap t = 0" by simp
    from Cons.prems(2) [unfolded fill_gaps_detailed_Cons] rpos True
    have "fill_gaps_detailed ts r ms = Inr (ms', r')" by simp
    moreover have "total_gap ts < r" using Cons.prems(1) by (simp add: tg g0)
    ultimately have "r' = r - total_gap ts" by (rule Cons.IH [rotated])
    then show ?thesis by (simp add: tg g0)
  next
    case False
    have "gap t < r" using Cons.prems(1) total_gap_nonneg [of ts] by (simp add: tg)
    then have m: "min r (gap t) = gap t" by simp
    from Cons.prems(2) [unfolded fill_gaps_detailed_Cons m] rpos False
    obtain splits where
      "fill_gaps_detailed ts (r - gap t)
         (ms @ tag_splits (Tier.name t) (first_account_fallback t (gap t) splits)) = Inr (ms', r')"
      by (cases "allocate_into_accounts t (gap t)") simp_all
    moreover have "total_gap ts < r - gap t" using Cons.prems(1) by (simp add: tg)
    ultimately have "r' = r - gap t - total_gap ts" by (rule Cons.IH [rotated])
    then show ?thesis by (simp add: tg)
  qed
qed

lemma allocate_into_accounts_no_accounts: "accounts t = [] \<Longrightarrow> allocate_into_accounts t x = Inr []"
  by (simp add: allocate_into_accounts_def)

text \<open>
  Claim C4, as amended. Let the cash \<open>A\<close> exceed the gaps of all tiers together, so that
  \<open>A - total_gap\<close> is left when every tier has been visited. \<open>allocation_plan\<close> lists
  every positive gap in priority order and then one entry, the leftover rounded to two
  decimals, for the first tier in priority order whose name contains \<open>Tier 4\<close> or whose
  purpose contains \<open>Growth\<close>; without such a tier it lists the gaps only.
  \<open>allocation_plan_detailed\<close> hands the leftover to \<open>allocate_into_accounts\<close> of that
  tier and appends the account moves it returns (one move of the rounded leftover to the
  first account when it returns none); without such a tier, or when that tier has no
  account, the leftover is in no move.
\<close>

theorem overflow_routing:
  assumes "total_gap (tiers p) < A"
  shows "allocation_plan p A =
           map (\<lambda>t. (Tier.name t, round2 (gap t))) (filter (\<lambda>t. 0 < gap t) (sorted_by_priority p)) @
           (case find is_growth (sorted_by_priority p) of
              None \<Rightarrow> []
            | Some g \<Rightarrow> [(Tier.name g, round2 (A - total_gap (tiers p)))])
       \<and> (\<forall>ms r. fill_gaps_detailed (sorted_by_priority p) A [] = Inr (ms, r) \<longrightarrow>
             r = A - total_gap (tiers p)
             \<and> (find is_growth (sorted_by_priority p) = None \<longrightarrow>
                  allocation_plan_detailed p A = Inr ms)
             \<and> (\<forall>g. find is_growth (sorted_by_priority p) = Some g \<longrightarrow>
                  (accounts g = [] \<longrightarrow> allocation_plan_detailed p A = Inr ms)
                  \<and> (\<forall>splits. allocate_into_accounts g (A - total_gap (tiers p)) = Inr splits \<longrightarrow>
                        allocation_plan_detailed p A =
                          Inr (ms @ tag_splits (Tier.name g)
                                     (first_account_fallback g (A - total_gap (tiers p)) splits)))))"
proof -
  have Apos: "0 < A" using assms total_gap_nonneg [of "tiers p"] by simp
  then have A: "max 0 A = A" by simp
  have lt: "total_gap (sorted_by_priority p) < A" using assms by (simp add: total_gap_sorted)
  have lpos: "0 < A - total_gap (tiers p)" using assms by simp
  have 1: "allocation_plan p A =
           map (\<lambda>t. (Tier.name t, round2 (gap t))) (filter (\<lambda>t. 0 < gap t) (sorted_by_priority p)) @
           (case find is_growth (sorted_by_priority p) of
              None \<Rightarrow> []
            | Some g \<Rightarrow> [(Tier.name g, round2 (A - total_gap (tiers p)))])"
    using lpos
    by (simp add: allocation_plan_def A fill_gaps_all_filled [OF lt] total_gap_sorted
          split: option.splits)
  have 2: "r = A - total_gap (tiers p)
             \<and> (find is_growth (sorted_by_priority p) = None \<longrightarrow>
                  allocation_plan_detailed p A = Inr ms)
             \<and> (\<forall>g. find is_growth (sorted_by_priority p) = Some g \<longrightarrow>
                  (accounts g = [] \<longrightarrow> allocation_plan_detailed p A = Inr ms)
                  \<and> (\<forall>splits. allocate_into_accounts g (A - total_gap (tiers p)) = Inr splits \<longrightarrow>
                        allocation_plan_detailed p A =
                          Inr (ms @ tag_splits (Tier.name g)
                                     (first_account_fallback g (A - total_gap (tiers p)) splits))))"
    if f: "fill_gaps_detailed (sorted_by_priority p) A [] = Inr (ms, r)" for ms r
  proof -
    have r: "r = A - total_gap (tiers p)"
      using fill_gaps_detailed_remaining [OF lt f] by (simp add: total_gap_sorted)
    have rpos: "0 < r" using r lpos by simp
    have a: "find is_growth (sorted_by_priority p) = None \<Longrightarrow> allocation_plan_detailed p A = Inr ms"
      using rpos by (simp add: allocation_plan_detailed_def A f)
    have b: "allocation_plan_detailed p A =
               Inr (ms @ tag_splits (Tier.name g) (first_account_fallback g r splits))"
      if "find is_growth (sorted_by_priority p) = Some g" "allocate_into_accounts g r = Inr splits"
      for g splits
      using rpos that by (simp add: allocation_plan_detailed_def A f)
    have c: "allocation_plan_detailed p A = Inr ms"
      if "find is_growth (sorted_by_priority p) = Some g" "accounts g = []" for g
      using b [OF that(1) allocate_into_accounts_no_accounts [OF that(2)]] that(2)
      by (simp add: first_account_fallback_def tag_splits_def)
    from r a b c show ?thesis by blast
  qed
  from 1 2 show ?thesis by blast
qed

theorem overflow_routing_witness:
  "total_gap (tiers overflow_plan) < 105
   \<and> allocation_plan overflow_plan 105 = [(''Tier 4'', 105)]
   \<and> fill_gaps_detailed (sorted_by_priority overflow_plan) 105 [] = Inr ([], 105)
   \<and> find is_growth (sorted_by_priority overflow_plan) = Some (tiers overflow_plan ! 0)
   \<and> allocation_plan_detailed overflow_plan 105 = Inr [(''Tier 4'', ''Bonds'', 105)]"
proof -
  have c: "total_gap (tiers overflow_plan) < 105"
    by (simp add: overflow_plan_def mk_plan_def mk_tier_def mk_account_def total_gap_def gap_def
          total_def)
  note th = overflow_routing [OF c]
  have "map (\<lambda>t. (Tier.name t, round2 (gap t)))
          (filter (\<lambda>t. 0 < gap t) (sorted_by_priority overflow_plan)) @
        (case find is_growth (sorted_by_priority overflow_plan) of
           None \<Rightarrow> []
         | Some g \<Rightarrow> [(Tier.name g, round2 (105 - total_gap (tiers overflow_plan)))])
        = [(''Tier 4'', 105)]"
    by code_simp
  with th [THEN conjunct1] have a: "allocation_plan overflow_plan 105 = [(''Tier 4'', 105)]"
    by simp
  have f: "fill_gaps_detailed (sorted_by_priority overflow_plan) 105 [] = Inr ([], 105)"
    by code_simp
  have g: "find is_growth (sorted_by_priority overflow_plan) = Some (tiers overflow_plan ! 0)"
    by code_simp
  have sp: "allocate_into_accounts (tiers overflow_plan ! 0)
              (105 - total_gap (tiers overflow_plan)) = Inr [(''Bonds'', 105)]"
    by code_simp
  from th [THEN conjunct2, rule_format, OF f]
  have "\<forall>g. find is_growth (sorted_by_priority overflow_plan) = Some g \<longrightarrow>
          (\<forall>splits. allocate_into_accounts g (105 - total_gap (tiers overflow_plan)) = Inr splits \<longrightarrow>
             allocation_plan_detailed overflow_plan 105 =
               Inr ([] @ tag_splits (Tier.name g)
                            (first_account_fallback g (105 - total_gap (tiers overflow_plan)) splits)))"
    by blast
  from this [rule_format, OF g sp]
  have d: "allocation_plan_detailed overflow_plan 105 =
             Inr ([] @ tag_splits (Tier.name (tiers overflow_plan ! 0))
                         (first_account_fallback (tiers overflow_plan ! 0)
                            (105 - total_gap (tiers overflow_plan)) [(''Bonds'', 105)]))" .
  have "[] @ tag_splits (Tier.name (tiers overflow_plan ! 0))
                         (first_account_fallback (tiers overflow_plan ! 0)
                            (105 - total_gap (tiers overflow_plan)) [(''Bonds'', 105)])
        = [(''Tier 4'', ''Bonds'', 105)]"
    by code_simp
  with d have e: "allocation_plan_detailed overflow_plan 105 = Inr [(''Tier 4'', ''Bonds'', 105)]"
    by simp
  from c a f g e show ?thesis by simp
qed

text \<open>
  Claim C4 as stated fails for \<open>allocation_plan_detailed\<close>: five units of cash beyond every
  gap, a tier named \<open>Tier 4\<close> in the plan, and no move at all, because that tier has no
  account to receive them.
\<close>

theorem overflow_routing_counterexample:
  "total_gap (tiers empty_growth_plan) = 0
   \<and> find is_growth (sorted_by_priority empty_growth_plan) = Some (tiers empty_growth_plan ! 1)
   \<and> Tier.name (tiers empty_growth_plan ! 1) = ''Tier 4''
   \<and> allocation_plan empty_growth_plan 5 = [(''Tier 4'', 5)]
   \<and> allocation_plan_detailed empty_growth_plan 5 = Inr []"
proof -
  have "total_gap (tiers empty_growth_plan) = 0"
    by (simp add: empty_growth_plan_def mk_plan_def mk_tier_def mk_account_def total_gap_def
          gap_def total_def)
  moreover have "find is_growth (sorted_by_priority empty_growth_plan) = Some (tiers empty_growth_plan ! 1)"
    by code_simp
  moreover have "Tier.name (tiers empty_growth_plan ! 1) = ''Tier 4''"
    by (simp add: empty_growth_plan_def mk_plan_def mk_tier_def)
  moreover have "allocation_plan empty_growth_plan 5 = [(''Tier 4'', 5)]"
    by code_simp
  moreover have "allocation_plan_detailed empty_growth_plan 5 = Inr []"
    by code_simp
  ultimately show ?thesis by simp
qed

section \<open>Intra-tier distribution: amounts and rounding\<close>

lemma round2_pos_imp_pos: "0 < round2 x \<Longrightarrow> 0 < x"
  using round2_nonpos [of x] by (cases "x \<le> 0") auto

lemma min_room_le: "min_room x rm \<le> x"
  by (cases rm) simp_all

text \<open>One pass: what is appended is what is taken from \<open>remaining\<close>, in whole cents.\<close>

lemma split_pass_moves:
  "split_pass tw cs (r, ms, pg) = (r', ms', pg') \<Longrightarrow>
     \<exists>new. ms' = ms @ new \<and> r' = r - sum_list (map snd new)
           \<and> (\<forall>e \<in> set new. 0 < snd e \<and> round2 (snd e) = snd e)"
proof (induction cs arbitrary: r ms pg)
  case Nil
  then show ?case by simp
next
  case (Cons a as)
  define add where "add = round2 (min_room (r * (max 0 (alloc_weight a) / tw)) (remaining_room a))"
  show ?case
  proof (cases "0 < add")
    case True
    with Cons.prems have "split_pass tw as (r - add, ms @ [(Account.name a, add)], True) = (r', ms', pg')"
      by (simp add: add_def Let_def)
    from Cons.IH [OF this] obtain new where
      n: "ms' = (ms @ [(Account.name a, add)]) @ new \<and> r' = r - add - sum_list (map snd new)
           \<and> (\<forall>e \<in> set new. 0 < snd e \<and> round2 (snd e) = snd e)" ..
    have "round2 add = add" unfolding add_def by (rule round2_idem)
    with n True have "ms' = ms @ ((Account.name a, add) # new)
        \<and> r' = r - sum_list (map snd ((Account.name a, add) # new))
        \<and> (\<forall>e \<in> set ((Account.name a, add) # new). 0 < snd e \<and> round2 (snd e) = snd e)"
      by simp
    then show ?thesis ..
  next
    case False
    with Cons.prems have "split_pass tw as (r, ms, pg) = (r', ms', pg')"
      by (simp add: add_def Let_def)
    from Cons.IH [OF this] show ?thesis .
  qed
qed

text \<open>One pass cannot overdraw \<open>remaining\<close> by more than half a cent.\<close>

lemma split_pass_overdraw:
  assumes "0 < tw" "\<forall>a \<in> set cs. max 0 (alloc_weight a) \<le> tw" "- (1 / 200) \<le> r"
    and "split_pass tw cs (r, ms, pg) = (r', ms', pg')"
  shows "- (1 / 200) \<le> r'"
  using assms(2-)
proof (induction cs arbitrary: r ms pg)
  case Nil
  then show ?case by simp
next
  case (Cons a as)
  define q where "q = max 0 (alloc_weight a) / tw"
  define add where "add = round2 (min_room (r * q) (remaining_room a))"
  have q: "0 \<le> q" "q \<le> 1" using assms(1) Cons.prems(1) by (simp_all add: q_def)
  show ?case
  proof (cases "0 < add")
    case True
    then have "0 < min_room (r * q) (remaining_room a)" unfolding add_def by (rule round2_pos_imp_pos)
    with min_room_le [of "r * q" "remaining_room a"] have sh: "0 < r * q" by linarith
    with q(1) have rpos: "0 < r" by (simp add: zero_less_mult_iff)
    then have "r * q \<le> r" using q(2) by (simp add: mult_left_le)
    with min_room_le [of "r * q" "remaining_room a"] have "min_room (r * q) (remaining_room a) \<le> r"
      by linarith
    then have "add \<le> round2 r" unfolding add_def by (rule round2_mono)
    with round2_upper [of r] have "- (1 / 200) \<le> r - add" by linarith
    moreover from Cons.prems(3) True
    have "split_pass tw as (r - add, ms @ [(Account.name a, add)], True) = (r', ms', pg')"
      by (simp add: add_def q_def Let_def)
    moreover have "\<forall>a \<in> set as. max 0 (alloc_weight a) \<le> tw" using Cons.prems(1) by simp
    ultimately show ?thesis using Cons.IH by blast
  next
    case False
    with Cons.prems(3) have "split_pass tw as (r, ms, pg) = (r', ms', pg')"
      by (simp add: add_def q_def Let_def)
    moreover have "\<forall>a \<in> set as. max 0 (alloc_weight a) \<le> tw" using Cons.prems(1) by simp
    ultimately show ?thesis using Cons.IH Cons.prems(2) by blast
  qed
qed

lemma total_weight_ge: "a \<in> set cs \<Longrightarrow> max 0 (alloc_weight a) \<le> total_weight cs"
proof (induction cs)
  case Nil
  then show ?case by simp
next
  case (Cons c cs)
  have nn: "0 \<le> total_weight cs" for cs :: "Account list"
    by (induction cs) (simp_all add: total_weight_def)
  have tw: "total_weight (c # cs) = max 0 (alloc_weight c) + total_weight cs"
    by (simp add: total_weight_def)
  show ?case
  proof (cases "a = c")
    case True
    then show ?thesis using nn [of cs] unfolding tw by simp
  next
    case False
    with Cons have "max 0 (alloc_weight a) \<le> total_weight cs" by simp
    then show ?thesis unfolding tw by (simp add: max_def split: if_splits)
  qed
qed

lemma distribute_stop: "\<not> 0 < r \<Longrightarrow> distribute t r ms = (ms, r)"
  by (subst distribute.simps) simp

lemma distribute_no_candidates: "candidates_of t = [] \<Longrightarrow> distribute t r ms = (ms, r)"
  by (subst distribute.simps) simp

lemma distribute_fallback:
  "0 < r \<Longrightarrow> candidates_of t = a # as \<Longrightarrow> total_weight (candidates_of t) \<le> 0 \<Longrightarrow>
   distribute t r ms =
     (ms @ [(Account.name a, round2 (min_room r (remaining_room a)))],
      r - min_room r (remaining_room a))"
  by (subst distribute.simps) (simp add: Let_def)

lemma distribute_pass:
  assumes "0 < r" "candidates_of t \<noteq> []" "0 < total_weight (candidates_of t)"
    and "split_pass (total_weight (candidates_of t)) (candidates_of t) (r, ms, False) = (r1, ms1, pg)"
  shows "distribute t r ms = (if pg then distribute t r1 ms1 else (ms1, r1))"
proof -
  obtain a as where c: "candidates_of t = a # as"
    using assms(2) by (cases "candidates_of t") auto
  have nle: "\<not> total_weight (a # as) \<le> 0" using assms(3) c by simp
  have sp: "split_pass (total_weight (a # as)) (a # as) (r, ms, False) = (r1, ms1, pg)"
    using assms(4) by (simp only: c)
  have "distribute t r ms = (if \<not> pg then (ms1, r1) else distribute t r1 ms1)"
    by (subst distribute.simps)
      (simp only: assms(1) if_True c Let_def list.case nle if_False sp prod.case)
  then show ?thesis by (cases pg) simp_all
qed

text \<open>The weighted loop as a whole: the cash it leaves is the cash it was given minus the
  listed amounts, each of them a positive whole number of cents.\<close>

lemma distribute_weighted:
  assumes "0 < total_weight (candidates_of t)" "distribute t r ms = (ms', r')"
  shows "\<exists>new. ms' = ms @ new \<and> r' = r - sum_list (map snd new)
           \<and> (\<forall>e \<in> set new. 0 < snd e \<and> round2 (snd e) = snd e)"
  using assms(2)
proof (induction "nat \<lceil>r * 100\<rceil>" arbitrary: r ms rule: less_induct)
  case less
  show ?case
  proof (cases "0 < r")
    case False
    with less.prems have "ms' = ms" "r' = r" by (simp_all add: distribute_stop)
    then show ?thesis by simp
  next
    case True
    have ne: "candidates_of t \<noteq> []" using assms(1) by (auto simp: total_weight_def)
    obtain r1 ms1 pg where
      sp: "split_pass (total_weight (candidates_of t)) (candidates_of t) (r, ms, False) = (r1, ms1, pg)"
      by (cases "split_pass (total_weight (candidates_of t)) (candidates_of t) (r, ms, False)")
    from split_pass_moves [OF sp] obtain n1 where
      n1: "ms1 = ms @ n1 \<and> r1 = r - sum_list (map snd n1)
           \<and> (\<forall>e \<in> set n1. 0 < snd e \<and> round2 (snd e) = snd e)" ..
    note d = distribute_pass [OF True ne assms(1) sp, of]
    show ?thesis
    proof (cases pg)
      case False
      with d less.prems have "ms' = ms1" "r' = r1" by simp_all
      with n1 show ?thesis by blast
    next
      case pg: True
      with d less.prems have rec: "distribute t r1 ms1 = (ms', r')" by simp
      from split_pass_remaining [OF sp] pg have "r1 \<le> r - 1 / 100" by simp
      then have "nat \<lceil>r1 * 100\<rceil> < nat \<lceil>r * 100\<rceil>" by (rule pass_measure [OF True])
      from less.hyps [OF this rec] obtain n2 where
        n2: "ms' = ms1 @ n2 \<and> r' = r1 - sum_list (map snd n2)
           \<and> (\<forall>e \<in> set n2. 0 < snd e \<and> round2 (snd e) = snd e)" ..
      from n1 n2 have "ms' = ms @ (n1 @ n2) \<and> r' = r - sum_list (map snd (n1 @ n2))
           \<and> (\<forall>e \<in> set (n1 @ n2). 0 < snd e \<and> round2 (snd e) = snd e)"
        by auto
      then show ?thesis ..
    qed
  qed
qed

text \<open>The loop with or without weight: it lists at most what it was given plus half a
  cent, and never a negative amount.\<close>

lemma distribute_sum:
  assumes "- (1 / 200) \<le> r" "distribute t r ms = (ms', r')"
  shows "\<exists>new. ms' = ms @ new \<and> sum_list (map snd new) \<le> r + 1 / 200
           \<and> (\<forall>e \<in> set new. 0 \<le> snd e)"
proof (cases "0 < r")
  case False
  with assms have "ms' = ms @ [] \<and> sum_list (map snd []) \<le> r + 1 / 200 \<and> (\<forall>e \<in> set ([] :: moves). 0 \<le> snd e)"
    by (simp add: distribute_stop)
  then show ?thesis ..
next
  case rpos: True
  show ?thesis
  proof (cases "candidates_of t")
    case Nil
    with assms have "ms' = ms @ [] \<and> sum_list (map snd []) \<le> r + 1 / 200 \<and> (\<forall>e \<in> set ([] :: moves). 0 \<le> snd e)"
      by (simp add: distribute_no_candidates)
    then show ?thesis ..
  next
    case (Cons a as)
    show ?thesis
    proof (cases "total_weight (candidates_of t) \<le> 0")
      case True
      define add where "add = min_room r (remaining_room a)"
      have ms': "ms' = ms @ [(Account.name a, round2 add)]"
        using assms(2) distribute_fallback [OF rpos Cons True, of ms] by (simp add: add_def)
      have "a \<in> set (candidates_of t)" using Cons by simp
      then have "room_pos (remaining_room a)" by (simp add: candidates_of_def)
      then have "0 < add" using rpos unfolding add_def by (cases "remaining_room a") simp_all
      then have nn: "0 \<le> round2 add" by (intro round2_nonneg) simp
      have "add \<le> r" unfolding add_def by (rule min_room_le)
      with round2_upper [of add] have "round2 add \<le> r + 1 / 200" by linarith
      with ms' nn have "ms' = ms @ [(Account.name a, round2 add)]
          \<and> sum_list (map snd [(Account.name a, round2 add)]) \<le> r + 1 / 200
          \<and> (\<forall>e \<in> set [(Account.name a, round2 add)]. 0 \<le> snd e)"
        by simp
      then show ?thesis ..
    next
      case False
      then have tw: "0 < total_weight (candidates_of t)" by simp
      from distribute_weighted [OF tw assms(2)] obtain new where
        n: "ms' = ms @ new \<and> r' = r - sum_list (map snd new)
           \<and> (\<forall>e \<in> set new. 0 < snd e \<and> round2 (snd e) = snd e)" ..
      have "- (1 / 200) \<le> r'"
        using tw assms
      proof (induction "nat \<lceil>r * 100\<rceil>" arbitrary: r ms rule: less_induct)
        case less
        show ?case
        proof (cases "0 < r")
          case False
          with less.prems show ?thesis by (simp add: distribute_stop)
        next
          case True
          have ne: "candidates_of t \<noteq> []" using Cons by simp
          obtain r1 ms1 pg where
            sp: "split_pass (total_weight (candidates_of t)) (candidates_of t) (r, ms, False) = (r1, ms1, pg)"
            by (cases "split_pass (total_weight (candidates_of t)) (candidates_of t) (r, ms, False)")
          have w: "\<forall>a \<in> set (candidates_of t). max 0 (alloc_weight a) \<le> total_weight (candidates_of t)"
            using total_weight_ge by blast
          have r1: "- (1 / 200) \<le> r1"
            by (rule split_pass_overdraw [OF less.prems(1) w less.prems(2) sp])
          note d = distribute_pass [OF True ne less.prems(1) sp]
          show ?thesis
          proof (cases pg)
            case False
            with d less.prems(3) r1 show ?thesis by simp
          next
            case pg: True
            with d less.prems(3) have rec: "distribute t r1 ms1 = (ms', r')" by simp
            from split_pass_remaining [OF sp] pg have "r1 \<le> r - 1 / 100" by simp
            then have "nat \<lceil>r1 * 100\<rceil> < nat \<lceil>r * 100\<rceil>" by (rule pass_measure [OF True])
            from less.hyps [OF this less.prems(1) r1 rec] show ?thesis .
          qed
        qed
      qed
      with n have "ms' = ms @ new \<and> sum_list (map snd new) \<le> r + 1 / 200
           \<and> (\<forall>e \<in> set new. 0 \<le> snd e)"
        by (auto intro: less_imp_le)
      then show ?thesis ..
    qed
  qed
qed

lemma preferred_first_cases:
  assumes "preferred_first t r = Inr (ms0, r0)"
  shows "(ms0 = [] \<and> r0 = r)
       \<or> (\<exists>pa \<in> set (accounts t).
             0 < min_room r (remaining_room pa)
             \<and> ms0 = [(Account.name pa, round2 (min_room r (remaining_room pa)))]
             \<and> r0 = r - min_room r (remaining_room pa))"
proof (cases "preferred_account t")
  case None
  with assms show ?thesis by (simp add: preferred_first_def)
next
  case (Some pn)
  show ?thesis
  proof (cases "find (\<lambda>a. Account.name a = pn) (accounts t)")
    case None
    with Some assms show ?thesis by (simp add: preferred_first_def split: if_splits)
  next
    case pa: (Some pa)
    then have "pa \<in> set (accounts t)" by (auto simp: find_Some_iff)
    with Some pa assms show ?thesis
      by (auto simp: preferred_first_def Let_def split: if_splits)
  qed
qed

text \<open>The amounts of \<open>allocate_into_accounts\<close>: none is negative, and together they
  exceed the amount by at most one cent.\<close>

lemma allocate_into_accounts_bounds:
  assumes "0 \<le> A" "allocate_into_accounts t A = Inr ms"
  shows "sum_list (map snd ms) \<le> A + 1 / 100 \<and> (\<forall>e \<in> set ms. 0 \<le> snd e)"
proof (cases "A \<le> 0 \<or> accounts t = []")
  case True
  with assms have "ms = []" by (auto simp: allocate_into_accounts_def)
  with assms(1) show ?thesis by simp
next
  case False
  then have A: "max 0 A = A" by simp
  from assms(2) False obtain ms0 r0 where
    pf: "preferred_first t A = Inr (ms0, r0)" and ms: "ms = fst (distribute t r0 ms0)"
    by (auto simp: allocate_into_accounts_def A Let_def split: sum.splits)
  obtain ms' r' where d: "distribute t r0 ms0 = (ms', r')" by (cases "distribute t r0 ms0")
  have pre: "0 \<le> r0 \<and> sum_list (map snd ms0) \<le> (A - r0) + 1 / 200 \<and> (\<forall>e \<in> set ms0. 0 \<le> snd e)"
    using preferred_first_cases [OF pf]
  proof
    assume "ms0 = [] \<and> r0 = A"
    with assms(1) show ?thesis by simp
  next
    assume "\<exists>pa \<in> set (accounts t).
             0 < min_room A (remaining_room pa)
             \<and> ms0 = [(Account.name pa, round2 (min_room A (remaining_room pa)))]
             \<and> r0 = A - min_room A (remaining_room pa)"
    then obtain pa where pos: "0 < min_room A (remaining_room pa)"
      and ms0: "ms0 = [(Account.name pa, round2 (min_room A (remaining_room pa)))]"
      and r0: "r0 = A - min_room A (remaining_room pa)"
      by blast
    have "min_room A (remaining_room pa) \<le> A" by (rule min_room_le)
    moreover have "round2 (min_room A (remaining_room pa)) \<le> min_room A (remaining_room pa) + 1 / 200"
      by (rule round2_upper)
    moreover have "0 \<le> round2 (min_room A (remaining_room pa))"
      using pos by (intro round2_nonneg) simp
    ultimately show ?thesis by (simp add: ms0 r0)
  qed
  then have "- (1 / 200) \<le> r0" by simp
  from distribute_sum [OF this d] obtain new where
    n: "ms' = ms0 @ new \<and> sum_list (map snd new) \<le> r0 + 1 / 200 \<and> (\<forall>e \<in> set new. 0 \<le> snd e)" ..
  have "ms = ms0 @ new" using ms d n by simp
  with pre n show ?thesis by auto
qed




text \<open>
  Claim C3, as amended. The preferred account is listed with \<open>round(add, 2)\<close> while
  \<open>add\<close> itself is taken from \<open>remaining\<close>; so is the single assignment made when the
  candidates carry no weight. In the weighted loop every listed amount is a whole number
  of cents and the loop leaves exactly what it was given minus the listed amounts.
\<close>

theorem rounding_in_allocate_into_accounts:
  "(preferred_first t r = Inr (ms0, r0) \<longrightarrow>
      (ms0 = [] \<and> r0 = r)
      \<or> (\<exists>pa \<in> set (accounts t).
            ms0 = [(Account.name pa, round2 (min_room r (remaining_room pa)))]
            \<and> r0 = r - min_room r (remaining_room pa)))
   \<and> (0 < total_weight (candidates_of t) \<and> distribute t r ms = (ms', r') \<longrightarrow>
        (\<exists>new. ms' = ms @ new \<and> r' = r - sum_list (map snd new)
               \<and> (\<forall>e \<in> set new. round2 (snd e) = snd e)))
   \<and> (0 < r \<and> total_weight (candidates_of t) \<le> 0 \<longrightarrow>
        (\<forall>a as. candidates_of t = a # as \<longrightarrow>
           distribute t r ms =
             (ms @ [(Account.name a, round2 (min_room r (remaining_room a)))],
              r - min_room r (remaining_room a))))"
proof (intro conjI impI allI)
  assume "preferred_first t r = Inr (ms0, r0)"
  from preferred_first_cases [OF this]
  show "(ms0 = [] \<and> r0 = r)
      \<or> (\<exists>pa \<in> set (accounts t).
            ms0 = [(Account.name pa, round2 (min_room r (remaining_room pa)))]
            \<and> r0 = r - min_room r (remaining_room pa))"
    by blast
next
  assume a: "0 < total_weight (candidates_of t) \<and> distribute t r ms = (ms', r')"
  have "\<exists>new. ms' = ms @ new \<and> r' = r - sum_list (map snd new)
           \<and> (\<forall>e \<in> set new. 0 < snd e \<and> round2 (snd e) = snd e)"
    by (rule distribute_weighted [OF a [THEN conjunct1] a [THEN conjunct2]])
  then show "\<exists>new. ms' = ms @ new \<and> r' = r - sum_list (map snd new)
               \<and> (\<forall>e \<in> set new. round2 (snd e) = snd e)"
    by blast
next
  fix a as
  assume "0 < r \<and> total_weight (candidates_of t) \<le> 0" "candidates_of t = a # as"
  then show "distribute t r ms =
             (ms @ [(Account.name a, round2 (min_room r (remaining_room a)))],
              r - min_room r (remaining_room a))"
    by (simp add: distribute_fallback)
qed

theorem rounding_in_allocate_into_accounts_witness:
  "preferred_first preferred_tier (1281 / 128) = Inr ([(''Savings'', 1001 / 100)], 0)
   \<and> 0 < total_weight (candidates_of preferred_tier)
   \<and> distribute preferred_tier 1 [] =
       ([(''Checking'', 33 / 100), (''Savings'', 45 / 100), (''Checking'', 7 / 100),
         (''Savings'', 10 / 100), (''Checking'', 2 / 100), (''Savings'', 2 / 100),
         (''Savings'', 1 / 100)], 0)
   \<and> sum_list (map snd (fst (distribute preferred_tier 1 []))) = 1
   \<and> total_weight (candidates_of zero_weight_tier) \<le> 0
   \<and> distribute zero_weight_tier (1 / 128) [] = ([(''Savings'', 1 / 100)], 0)"
proof -
  note th = rounding_in_allocate_into_accounts
  have p: "preferred_first preferred_tier (1281 / 128) = Inr ([(''Savings'', 1001 / 100)], 0)"
    by code_simp
  have w: "0 < total_weight (candidates_of preferred_tier)"
    by code_simp
  have d: "distribute preferred_tier 1 [] =
       ([(''Checking'', 33 / 100), (''Savings'', 45 / 100), (''Checking'', 7 / 100),
         (''Savings'', 10 / 100), (''Checking'', 2 / 100), (''Savings'', 2 / 100),
         (''Savings'', 1 / 100)], 0)"
    by code_simp
  have z: "total_weight (candidates_of zero_weight_tier) \<le> 0"
    by code_simp
  have c: "candidates_of zero_weight_tier = accounts zero_weight_tier ! 0 # [accounts zero_weight_tier ! 1]"
    by code_simp
  have "(0::rat) < 1 / 128" by simp
  with z th [of zero_weight_tier "1 / 128" _ _ "[]", THEN conjunct2, THEN conjunct2] c
  have "distribute zero_weight_tier (1 / 128) [] =
          ([] @ [(Account.name (accounts zero_weight_tier ! 0),
                  round2 (min_room (1 / 128) (remaining_room (accounts zero_weight_tier ! 0))))],
           1 / 128 - min_room (1 / 128) (remaining_room (accounts zero_weight_tier ! 0)))"
    by blast
  moreover have "([] @ [(Account.name (accounts zero_weight_tier ! 0),
                  round2 (min_room (1 / 128) (remaining_room (accounts zero_weight_tier ! 0))))],
           1 / 128 - min_room (1 / 128) (remaining_room (accounts zero_weight_tier ! 0)))
          = ([(''Savings'', 1 / 100)], 0 :: rat)"
    by code_simp
  ultimately have f: "distribute zero_weight_tier (1 / 128) [] = ([(''Savings'', 1 / 100)], 0)"
    by simp
  from w d th [of preferred_tier 1 _ _ "[]" "fst (distribute preferred_tier 1 [])" 0,
               THEN conjunct2, THEN conjunct1]
  obtain new where "fst (distribute preferred_tier 1 []) = [] @ new"
    and "0 = 1 - sum_list (map snd new)"
    by auto
  then have g: "sum_list (map snd (fst (distribute preferred_tier 1 []))) = 1" by simp
  from p w d g z f show ?thesis by simp
qed

text \<open>
  Claim C3 as stated fails at the preferred account: of 10 + 1/128 the preferred account
  is listed with 10.01, and what is left for the loop is 0, not 10 + 1/128 - 10.01.
\<close>

theorem rounding_in_allocate_into_accounts_counterexample:
  "preferred_first preferred_tier (1281 / 128) = Inr ([(''Savings'', 1001 / 100)], 0)
   \<and> (1281 / 128 :: rat) - 1001 / 100 \<noteq> 0"
proof -
  have "preferred_first preferred_tier (1281 / 128) = Inr ([(''Savings'', 1001 / 100)], 0)"
    by code_simp
  then show ?thesis by simp
qed

section \<open>Monotonicity of the detailed allocation\<close>

lemma assigned_to_append: "assigned_to n (xs @ ys) = assigned_to n xs + assigned_to n ys"
  by (simp add: assigned_to_def)

lemma assigned_to_Nil: "assigned_to n [] = 0"
  by (simp add: assigned_to_def)

lemma assigned_to_tag_other: "tn \<noteq> n \<Longrightarrow> assigned_to n (tag_splits tn splits) = 0"
  by (induction splits) (auto simp: assigned_to_def tag_splits_def)

lemma assigned_to_tag_nonneg:
  "\<forall>e \<in> set splits. 0 \<le> snd e \<Longrightarrow> 0 \<le> assigned_to n (tag_splits tn splits)"
proof (induction splits)
  case Nil
  then show ?case by (simp add: assigned_to_def tag_splits_def)
next
  case (Cons e splits)
  then have "0 \<le> round2 (snd e)" by (intro round2_nonneg) simp
  with Cons show ?case by (cases e) (auto simp: assigned_to_def tag_splits_def)
qed

lemma fill_gaps_detailed_nonpos: "r \<le> 0 \<Longrightarrow> fill_gaps_detailed ts r ms = Inr (ms, r)"
  by (cases ts) simp_all

lemma fill_gaps_detailed_append:
  "fill_gaps_detailed (pre @ rest) r ms =
     (case fill_gaps_detailed pre r ms of
        Inl e \<Rightarrow> Inl e
      | Inr (m, r') \<Rightarrow> fill_gaps_detailed rest r' m)"
proof (induction pre arbitrary: r ms)
  case Nil
  then show ?case by simp
next
  case (Cons t pre)
  show ?case
  proof (cases "r \<le> 0")
    case True
    then show ?thesis by (simp add: fill_gaps_detailed_nonpos)
  next
    case rpos: False
    show ?thesis
    proof (cases "gap t \<le> 0")
      case True
      with rpos Cons.IH [of r ms] show ?thesis
        by (simp only: append_Cons fill_gaps_detailed_Cons if_False if_True)
    next
      case False
      show ?thesis
      proof (cases "allocate_into_accounts t (min r (gap t))")
        case (Inl e)
        with rpos False show ?thesis
          by (simp only: append_Cons fill_gaps_detailed_Cons if_False sum.case)
      next
        case (Inr splits)
        with rpos False Cons.IH show ?thesis
          by (simp only: append_Cons fill_gaps_detailed_Cons if_False sum.case)
      qed
    qed
  qed
qed

text \<open>Tiers whose gaps the cash covers get the same moves from any larger cash.\<close>

lemma fill_gaps_detailed_full:
  assumes "total_gap pre \<le> r" "r \<le> r2" "fill_gaps_detailed pre r ms = Inr (m, r')"
  shows "fill_gaps_detailed pre r2 ms = Inr (m, r2 - total_gap pre) \<and> r' = r - total_gap pre"
  using assms
proof (induction pre arbitrary: r r2 ms)
  case Nil
  then show ?case by (simp add: total_gap_def)
next
  case (Cons t pre)
  have tg: "total_gap (t # pre) = gap t + total_gap pre" by (simp add: total_gap_def)
  note g0 = gap_nonneg [of t] and tg0 = total_gap_nonneg [of pre]
  show ?case
  proof (cases "gap t \<le> 0")
    case True
    with g0 have gz: "gap t = 0" by simp
    have le: "total_gap pre \<le> r" using Cons.prems(1) by (simp add: tg gz)
    have f1: "fill_gaps_detailed pre r ms = Inr (m, r')"
    proof (cases "r \<le> 0")
      case True
      with Cons.prems(3) have "m = ms" "r' = r" by (simp_all add: fill_gaps_detailed_nonpos)
      with True show ?thesis by (simp add: fill_gaps_detailed_nonpos)
    next
      case False
      with Cons.prems(3) [unfolded fill_gaps_detailed_Cons] \<open>gap t \<le> 0\<close> show ?thesis by simp
    qed
    from Cons.IH [OF le Cons.prems(2) f1]
    have ih: "fill_gaps_detailed pre r2 ms = Inr (m, r2 - total_gap pre)" "r' = r - total_gap pre"
      by simp_all
    have "fill_gaps_detailed (t # pre) r2 ms = Inr (m, r2 - total_gap pre)"
    proof (cases "r2 \<le> 0")
      case True
      with le tg0 Cons.prems(2) have "r2 = 0" "total_gap pre = 0" by simp_all
      with ih(1) show ?thesis by (simp add: fill_gaps_detailed_nonpos)
    next
      case False
      with ih(1) \<open>gap t \<le> 0\<close> show ?thesis by (simp only: fill_gaps_detailed_Cons if_False if_True)
    qed
    with ih(2) show ?thesis by (simp add: tg gz)
  next
    case gpos: False
    have ge: "gap t \<le> r" using Cons.prems(1) tg0 by (simp add: tg)
    then have rpos: "\<not> r \<le> 0" "\<not> r2 \<le> 0" using gpos Cons.prems(2) by simp_all
    have m1: "min r (gap t) = gap t" and m2: "min r2 (gap t) = gap t"
      using ge Cons.prems(2) by simp_all
    from Cons.prems(3) obtain splits where
      al: "allocate_into_accounts t (gap t) = Inr splits"
      and f1: "fill_gaps_detailed pre (r - gap t)
                 (ms @ tag_splits (Tier.name t) (first_account_fallback t (gap t) splits)) = Inr (m, r')"
      unfolding fill_gaps_detailed_Cons m1 using rpos gpos
      by (cases "allocate_into_accounts t (gap t)") simp_all
    have "total_gap pre \<le> r - gap t" "r - gap t \<le> r2 - gap t"
      using Cons.prems(1,2) by (simp_all add: tg)
    from Cons.IH [OF this f1]
    have ih: "fill_gaps_detailed pre (r2 - gap t)
                 (ms @ tag_splits (Tier.name t) (first_account_fallback t (gap t) splits))
              = Inr (m, r2 - gap t - total_gap pre)" "r' = r - gap t - total_gap pre"
      by simp_all
    have "fill_gaps_detailed (t # pre) r2 ms = Inr (m, r2 - gap t - total_gap pre)"
      unfolding fill_gaps_detailed_Cons m2 using rpos gpos al ih(1) by simp
    with ih(2) show ?thesis by (simp add: tg algebra_simps)
  qed
qed

lemma fill_gaps_detailed_other_name:
  assumes "n \<notin> Tier.name ` set ts" "fill_gaps_detailed ts r ms = Inr (ms', r')"
  shows "assigned_to n ms' = assigned_to n ms"
  using assms
proof (induction ts arbitrary: r ms)
  case Nil
  then show ?case by simp
next
  case (Cons t ts)
  from Cons.prems(1) have nt: "Tier.name t \<noteq> n" and ns: "n \<notin> Tier.name ` set ts" by auto
  show ?case
  proof (cases "r \<le> 0")
    case True
    with Cons.prems(2) show ?thesis by (simp add: fill_gaps_detailed_nonpos)
  next
    case rpos: False
    show ?thesis
    proof (cases "gap t \<le> 0")
      case True
      with rpos Cons.prems(2) [unfolded fill_gaps_detailed_Cons]
      have "fill_gaps_detailed ts r ms = Inr (ms', r')" by simp
      from Cons.IH [OF ns this] show ?thesis .
    next
      case False
      with rpos Cons.prems(2) [unfolded fill_gaps_detailed_Cons] obtain splits where
        "fill_gaps_detailed ts (r - min r (gap t))
           (ms @ tag_splits (Tier.name t) (first_account_fallback t (min r (gap t)) splits))
         = Inr (ms', r')"
        by (cases "allocate_into_accounts t (min r (gap t))") simp_all
      from Cons.IH [OF ns this] nt show ?thesis
        by (simp add: assigned_to_append assigned_to_tag_other)
    qed
  qed
qed

lemma fill_gaps_detailed_left:
  assumes "0 \<le> r" "fill_gaps_detailed ts r ms = Inr (ms', r')"
  shows "r' = max 0 (r - total_gap ts)"
  using assms
proof (induction ts arbitrary: r ms)
  case Nil
  then show ?case by (simp add: total_gap_def)
next
  case (Cons t ts)
  have tg: "total_gap (t # ts) = gap t + total_gap ts" by (simp add: total_gap_def)
  note g0 = gap_nonneg [of t] and tg0 = total_gap_nonneg [of ts]
  show ?case
  proof (cases "r \<le> 0")
    case True
    with Cons.prems have "r' = r" "r = 0" by (simp_all add: fill_gaps_detailed_nonpos)
    with g0 tg0 show ?thesis by (simp add: tg)
  next
    case rpos: False
    show ?thesis
    proof (cases "gap t \<le> 0")
      case True
      with rpos Cons.prems(2) [unfolded fill_gaps_detailed_Cons]
      have "fill_gaps_detailed ts r ms = Inr (ms', r')" by simp
      from Cons.IH [OF Cons.prems(1) this] True g0 show ?thesis by (simp add: tg)
    next
      case False
      with rpos Cons.prems(2) [unfolded fill_gaps_detailed_Cons] obtain splits where
        f: "fill_gaps_detailed ts (r - min r (gap t))
           (ms @ tag_splits (Tier.name t) (first_account_fallback t (min r (gap t)) splits))
         = Inr (ms', r')"
        by (cases "allocate_into_accounts t (min r (gap t))") simp_all
      have "0 \<le> r - min r (gap t)" by simp
      from Cons.IH [OF this f] have r': "r' = max 0 (r - min r (gap t) - total_gap ts)" .
      show ?thesis
      proof (cases "r \<le> gap t")
        case True
        with r' tg0 show ?thesis by (simp add: tg)
      next
        case False
        then have "min r (gap t) = gap t" by simp
        with r' show ?thesis by (simp add: tg algebra_simps)
      qed
    qed
  qed
qed

lemma first_account_fallback_nonneg:
  assumes "0 \<le> r" "\<forall>e \<in> set splits. 0 \<le> snd e"
  shows "\<forall>e \<in> set (first_account_fallback g r splits). 0 \<le> snd e"
  using assms round2_nonneg [OF assms(1)]
  by (auto simp: first_account_fallback_def split: list.splits)

text \<open>The result of \<open>allocation_plan_detailed\<close>: the moves of the gap-filling loop, then
  the overflow moves, all of them for the overflow tier and none negative.\<close>

lemma allocation_plan_detailed_split:
  assumes "0 \<le> X" "allocation_plan_detailed p X = Inr res"
  shows "\<exists>g r ov. fill_gaps_detailed (sorted_by_priority p) X [] = Inr (g, r)
           \<and> res = g @ ov \<and> (r \<le> 0 \<longrightarrow> ov = [])
           \<and> (\<forall>n. 0 \<le> assigned_to n ov)
           \<and> (\<forall>n. (\<forall>gt. find is_growth (sorted_by_priority p) = Some gt \<longrightarrow> Tier.name gt \<noteq> n)
                  \<longrightarrow> assigned_to n ov = 0)"
proof -
  have X: "max 0 X = X" using assms(1) by simp
  from assms(2) obtain g r where f: "fill_gaps_detailed (sorted_by_priority p) X [] = Inr (g, r)"
    by (cases "fill_gaps_detailed (sorted_by_priority p) X []")
       (auto simp: allocation_plan_detailed_def X)
  have r0: "0 \<le> r" using fill_gaps_detailed_left [OF assms(1) f] by simp
  have trivial: ?thesis if "res = g"
  proof -
    have "res = g @ [] \<and> (r \<le> 0 \<longrightarrow> ([] :: dmoves) = [])
           \<and> (\<forall>n. 0 \<le> assigned_to n [])
           \<and> (\<forall>n. (\<forall>gt. find is_growth (sorted_by_priority p) = Some gt \<longrightarrow> Tier.name gt \<noteq> n)
                  \<longrightarrow> assigned_to n [] = 0)"
      using that by (simp add: assigned_to_Nil)
    with f show ?thesis by blast
  qed
  show ?thesis
  proof (cases "0 < r")
    case False
    with assms(2) f have "res = g" by (simp add: allocation_plan_detailed_def X)
    then show ?thesis by (rule trivial)
  next
    case rpos: True
    show ?thesis
    proof (cases "find is_growth (sorted_by_priority p)")
      case None
      with assms(2) f rpos have "res = g" by (simp add: allocation_plan_detailed_def X)
      then show ?thesis by (rule trivial)
    next
      case (Some gt)
      with assms(2) f rpos obtain splits where
        al: "allocate_into_accounts gt r = Inr splits"
        and res: "res = g @ tag_splits (Tier.name gt) (first_account_fallback gt r splits)"
        by (cases "allocate_into_accounts gt r") (auto simp: allocation_plan_detailed_def X)
      have "\<forall>e \<in> set splits. 0 \<le> snd e"
        using allocate_into_accounts_bounds [OF r0 al] by simp
      then have nn: "\<forall>e \<in> set (first_account_fallback gt r splits). 0 \<le> snd e"
        by (rule first_account_fallback_nonneg [OF r0])
      define ov where "ov = tag_splits (Tier.name gt) (first_account_fallback gt r splits)"
      have 1: "\<forall>n. 0 \<le> assigned_to n ov"
        unfolding ov_def using assigned_to_tag_nonneg [OF nn] by blast
      have 2: "\<forall>n. (\<forall>gt. find is_growth (sorted_by_priority p) = Some gt \<longrightarrow> Tier.name gt \<noteq> n)
                  \<longrightarrow> assigned_to n ov = 0"
        unfolding ov_def using Some by (auto simp: assigned_to_tag_other)
      from f res rpos 1 2 have "fill_gaps_detailed (sorted_by_priority p) X [] = Inr (g, r)
           \<and> res = g @ ov \<and> (r \<le> 0 \<longrightarrow> ov = [])
           \<and> (\<forall>n. 0 \<le> assigned_to n ov)
           \<and> (\<forall>n. (\<forall>gt. find is_growth (sorted_by_priority p) = Some gt \<longrightarrow> Tier.name gt \<noteq> n)
                  \<longrightarrow> assigned_to n ov = 0)"
        by (simp add: ov_def)
      then show ?thesis by blast
    qed
  qed
qed

lemma distinct_map_insort_key:
  "distinct (map f (insort_key k x xs)) \<longleftrightarrow> f x \<notin> f ` set xs \<and> distinct (map f xs)"
  by (induction xs) (auto simp: set_insort_key)

lemma distinct_map_sort_key: "distinct (map f (sort_key k xs)) \<longleftrightarrow> distinct (map f xs)"
  by (induction xs) (simp_all add: distinct_map_insort_key)

text \<open>
  Claim C9, as amended. Take amounts \<open>0 \<le> A \<le> B\<close> for which both runs of
  \<open>allocation_plan_detailed\<close> return, tier names being unique, and a tier whose gap the
  \<open>A\<close> run assigned in full: the gaps of the tiers up to it in priority order are together
  at most \<open>A\<close>. If that tier is not the overflow tier, or the \<open>A\<close> run left no cash
  over, the total the \<open>B\<close> run assigns to it is at least the total of the \<open>A\<close> run.
\<close>

theorem allocation_plan_detailed_monotone:
  assumes "distinct (map Tier.name (tiers p))" "0 \<le> A" "A \<le> B"
    and "allocation_plan_detailed p A = Inr msA" "allocation_plan_detailed p B = Inr msB"
    and "i < length (sorted_by_priority p)"
    and "total_gap (take (Suc i) (sorted_by_priority p)) \<le> A"
    and "find is_growth (sorted_by_priority p) \<noteq> Some (sorted_by_priority p ! i)
         \<or> A \<le> total_gap (tiers p)"
  shows "assigned_to (Tier.name (sorted_by_priority p ! i)) msA
           \<le> assigned_to (Tier.name (sorted_by_priority p ! i)) msB"
proof -
  define ts where "ts = sorted_by_priority p"
  define pre where "pre = take (Suc i) ts"
  define rest where "rest = drop (Suc i) ts"
  define t where "t = ts ! i"
  define n where "n = Tier.name t"
  have ts: "ts = pre @ rest" by (simp add: pre_def rest_def)
  have d: "distinct (map Tier.name ts)"
    using assms(1) by (simp add: ts_def sorted_by_priority_def distinct_map_sort_key)
  have i: "i < length ts" using assms(6) by (simp add: ts_def)
  have t_pre: "t \<in> set pre"
    unfolding t_def pre_def using i by (simp add: take_Suc_conv_app_nth)
  have t_ts: "t \<in> set ts" unfolding t_def using i by simp
  have n_rest: "n \<notin> Tier.name ` set rest"
    using d t_pre unfolding ts n_def by auto
  have B0: "0 \<le> B" using assms(2,3) by simp
  from allocation_plan_detailed_split [OF assms(2,4)] obtain gA rA oA where
    fA: "fill_gaps_detailed ts A [] = Inr (gA, rA)" and mA: "msA = gA @ oA"
    and eA: "rA \<le> 0 \<longrightarrow> oA = []"
    and zA: "\<forall>n. (\<forall>gt. find is_growth ts = Some gt \<longrightarrow> Tier.name gt \<noteq> n) \<longrightarrow> assigned_to n oA = 0"
    unfolding ts_def by blast
  from allocation_plan_detailed_split [OF B0 assms(5)] obtain gB rB oB where
    fB: "fill_gaps_detailed ts B [] = Inr (gB, rB)" and mB: "msB = gB @ oB"
    and nB: "\<forall>n. 0 \<le> assigned_to n oB"
    and zB: "\<forall>n. (\<forall>gt. find is_growth ts = Some gt \<longrightarrow> Tier.name gt \<noteq> n) \<longrightarrow> assigned_to n oB = 0"
    unfolding ts_def by blast
  from fA obtain m r1 where
    pA: "fill_gaps_detailed pre A [] = Inr (m, r1)" and rA: "fill_gaps_detailed rest r1 m = Inr (gA, rA)"
    unfolding ts fill_gaps_detailed_append
    by (cases "fill_gaps_detailed pre A []") auto
  have le: "total_gap pre \<le> A" using assms(7) by (simp add: pre_def ts_def)
  from fill_gaps_detailed_full [OF le assms(3) pA]
  have pB: "fill_gaps_detailed pre B [] = Inr (m, B - total_gap pre)" by simp
  from fB have rB: "fill_gaps_detailed rest (B - total_gap pre) m = Inr (gB, rB)"
    unfolding ts fill_gaps_detailed_append pB by simp
  have gA: "assigned_to n gA = assigned_to n m"
    by (rule fill_gaps_detailed_other_name [OF n_rest rA])
  have gB: "assigned_to n gB = assigned_to n m"
    by (rule fill_gaps_detailed_other_name [OF n_rest rB])
  have "assigned_to n oA \<le> assigned_to n oB"
    using assms(8)
  proof
    assume ng: "find is_growth (sorted_by_priority p) \<noteq> Some (sorted_by_priority p ! i)"
    have "\<forall>gt. find is_growth ts = Some gt \<longrightarrow> Tier.name gt \<noteq> n"
    proof (intro allI impI)
      fix gt assume g: "find is_growth ts = Some gt"
      then have "gt \<in> set ts" by (auto simp: find_Some_iff)
      moreover have "gt \<noteq> t" using g ng by (auto simp: ts_def t_def)
      moreover have "inj_on Tier.name (set ts)" using d by (simp add: distinct_map)
      ultimately show "Tier.name gt \<noteq> n" using t_ts unfolding n_def by (auto dest: inj_onD)
    qed
    with zA zB show ?thesis by simp
  next
    assume "A \<le> total_gap (tiers p)"
    then have "A - total_gap ts \<le> 0" by (simp add: ts_def total_gap_sorted)
    with fill_gaps_detailed_left [OF assms(2) fA] have "rA \<le> 0" by simp
    with eA have "oA = []" by simp
    with nB show ?thesis by (simp add: assigned_to_Nil)
  qed
  with gA gB have "assigned_to n msA \<le> assigned_to n msB"
    by (simp add: mA mB assigned_to_append)
  then show ?thesis by (simp add: n_def t_def ts_def)
qed

theorem allocation_plan_detailed_monotone_witness:
  "distinct (map Tier.name (tiers waterfall_plan))
   \<and> (0::rat) \<le> 120 \<and> (120::rat) \<le> 130
   \<and> allocation_plan_detailed waterfall_plan 120 =
       Inr [(''Tier 1'', ''Checking'', 100), (''Tier 2'', ''Savings'', 20)]
   \<and> allocation_plan_detailed waterfall_plan 130 =
       Inr [(''Tier 1'', ''Checking'', 100), (''Tier 2'', ''Savings'', 30)]
   \<and> 0 < length (sorted_by_priority waterfall_plan)
   \<and> Tier.name (sorted_by_priority waterfall_plan ! 0) = ''Tier 1''
   \<and> total_gap (take (Suc 0) (sorted_by_priority waterfall_plan)) \<le> 120
   \<and> find is_growth (sorted_by_priority waterfall_plan) = None
   \<and> assigned_to ''Tier 1'' [(''Tier 1'', ''Checking'', 100), (''Tier 2'', ''Savings'', 20)]
       \<le> assigned_to ''Tier 1'' [(''Tier 1'', ''Checking'', 100), (''Tier 2'', ''Savings'', 30)]"
proof -
  have d: "distinct (map Tier.name (tiers waterfall_plan))"
    by (simp add: waterfall_plan_def mk_plan_def mk_tier_def)
  have a: "allocation_plan_detailed waterfall_plan 120 =
       Inr [(''Tier 1'', ''Checking'', 100), (''Tier 2'', ''Savings'', 20)]"
    by code_simp
  have b: "allocation_plan_detailed waterfall_plan 130 =
       Inr [(''Tier 1'', ''Checking'', 100), (''Tier 2'', ''Savings'', 30)]"
    by code_simp
  have l: "0 < length (sorted_by_priority waterfall_plan)"
    by code_simp
  have n: "Tier.name (sorted_by_priority waterfall_plan ! 0) = ''Tier 1''"
    by code_simp
  have g: "total_gap (take (Suc 0) (sorted_by_priority waterfall_plan)) \<le> 120"
    by code_simp
  have f: "find is_growth (sorted_by_priority waterfall_plan) = None"
    by code_simp
  have "assigned_to (Tier.name (sorted_by_priority waterfall_plan ! 0))
          [(''Tier 1'', ''Checking'', 100), (''Tier 2'', ''Savings'', 20)]
        \<le> assigned_to (Tier.name (sorted_by_priority waterfall_plan ! 0))
          [(''Tier 1'', ''Checking'', 100), (''Tier 2'', ''Savings'', 30)]"
    by (rule allocation_plan_detailed_monotone [OF d _ _ a b l g]) (simp_all add: f)
  with d a b l n g f show ?thesis by simp
qed

text \<open>
  Claim C9 as stated fails for the overflow tier. Its gap of one cent is assigned in full
  by both runs. Of the leftover of the smaller run, 0.019, no share rounds to a cent, and
  the first account is given the whole of it, rounded to 0.02; of the leftover of the
  larger run, 0.021, one share rounds to a cent and nothing more is assigned.
\<close>

theorem allocation_plan_detailed_monotone_counterexample:
  "(29 / 1000 :: rat) \<le> 31 / 1000
   \<and> gap (tiers four_account_plan ! 0) = 1 / 100
   \<and> allocation_plan_detailed four_account_plan (29 / 1000) =
       Inr [(''Tier 4'', ''Bonds'', 1 / 100), (''Tier 4'', ''Bonds'', 2 / 100)]
   \<and> allocation_plan_detailed four_account_plan (31 / 1000) =
       Inr [(''Tier 4'', ''Bonds'', 1 / 100), (''Tier 4'', ''Bonds'', 1 / 100)]
   \<and> \<not> assigned_to ''Tier 4'' [(''Tier 4'', ''Bonds'', 1 / 100), (''Tier 4'', ''Bonds'', 2 / 100)]
         \<le> assigned_to ''Tier 4'' [(''Tier 4'', ''Bonds'', 1 / 100), (''Tier 4'', ''Bonds'', 1 / 100)]"
proof -
  have "gap (tiers four_account_plan ! 0) = 1 / 100"
    by (simp add: four_account_plan_def mk_plan_def mk_tier_def mk_account_def gap_def total_def)
  moreover have "allocation_plan_detailed four_account_plan (29 / 1000) =
       Inr [(''Tier 4'', ''Bonds'', 1 / 100), (''Tier 4'', ''Bonds'', 2 / 100)]"
    by code_simp
  moreover have "allocation_plan_detailed four_account_plan (31 / 1000) =
       Inr [(''Tier 4'', ''Bonds'', 1 / 100), (''Tier 4'', ''Bonds'', 1 / 100)]"
    by code_simp
  ultimately show ?thesis by (simp add: assigned_to_def)
qed

section \<open>The planning methods leave the Plan as it was\<close>

lemma store_tier_deref: "store_tier k (deref self k) self = self"
  by (simp add: store_tier_def deref_def)

lemma map_insort_key_comp:
  "map f (insort_key (\<lambda>k. g (f k)) x xs) = insort_key g (f x) (map f xs)"
  by (induction xs) simp_all

lemma map_sort_key_comp: "map f (sort_key (\<lambda>k. g (f k)) xs) = sort_key g (map f xs)"
  by (induction xs) (simp_all add: map_insort_key_comp)

lemma map_deref_upt: "map (deref self) [0..<length (tiers self)] = tiers self"
  unfolding deref_def by (rule map_nth)

lemma map_deref_sorted_refs: "map (deref self) (sorted_refs self) = sorted_by_priority self"
  by (simp add: sorted_refs_def sorted_by_priority_def map_sort_key_comp map_deref_upt)

lemma find_map_comp: "find P (map f xs) = map_option f (find (\<lambda>x. P (f x)) xs)"
  by (induction xs) simp_all

lemma filter_map_comp: "filter P (map f xs) = map f (filter (\<lambda>x. P (f x)) xs)"
  by (induction xs) simp_all

lemma distribute_st_eq:
  "distribute_st (t, r, ms) = (t, snd (distribute t r ms), fst (distribute t r ms))"
proof (induction "nat \<lceil>r * 100\<rceil>" arbitrary: r ms rule: less_induct)
  case less
  show ?case
  proof (cases "0 < r")
    case False
    then show ?thesis
      by (subst distribute_st.simps) (simp add: distribute_stop)
  next
    case rpos: True
    show ?thesis
    proof (cases "candidates_of t")
      case Nil
      then show ?thesis
        by (subst distribute_st.simps) (simp add: distribute_no_candidates)
    next
      case (Cons a as)
      show ?thesis
      proof (cases "total_weight (candidates_of t) \<le> 0")
        case True
        with rpos Cons show ?thesis
          by (subst distribute_st.simps) (simp add: distribute_fallback [OF rpos Cons True] Let_def)
      next
        case False
        then have tw: "0 < total_weight (candidates_of t)" by simp
        have ne: "candidates_of t \<noteq> []" using Cons by simp
        obtain r1 ms1 pg where
          sp: "split_pass (total_weight (candidates_of t)) (candidates_of t) (r, ms, False) = (r1, ms1, pg)"
          by (cases "split_pass (total_weight (candidates_of t)) (candidates_of t) (r, ms, False)")
        have sp': "split_pass (total_weight (a # as)) (a # as) (r, ms, False) = (r1, ms1, pg)"
          using sp by (simp only: Cons)
        have nle: "\<not> total_weight (a # as) \<le> 0" using False unfolding Cons .
        have st: "distribute_st (t, r, ms) =
                    (if \<not> pg then (t, r1, ms1) else distribute_st (t, r1, ms1))"
          by (subst distribute_st.simps)
            (simp only: rpos if_True Cons Let_def list.case nle if_False sp' prod.case)
        note d = distribute_pass [OF rpos ne tw sp]
        show ?thesis
        proof (cases pg)
          case False
          with st d show ?thesis by simp
        next
          case True
          from split_pass_remaining [OF sp] True have "r1 \<le> r - 1 / 100" by simp
          with rpos have "nat \<lceil>r1 * 100\<rceil> < nat \<lceil>r * 100\<rceil>" by (rule pass_measure)
          from less.hyps [OF this, of ms1] True st d show ?thesis by simp
        qed
      qed
    qed
  qed
qed

lemma allocate_into_accounts_st_eq:
  "allocate_into_accounts_st amount t = (allocate_into_accounts t amount, t)"
  by (simp add: allocate_into_accounts_st_def allocate_into_accounts_def distribute_st_eq Let_def
        split: sum.splits prod.splits)

lemma fill_gaps_st_eq:
  "fill_gaps_st ks (self, r, ms) =
     (self, snd (fill_gaps (map (deref self) ks) r ms), fst (fill_gaps (map (deref self) ks) r ms))"
  by (induction ks arbitrary: r ms) (simp_all add: Let_def)

lemma fill_gaps_detailed_st_eq:
  "fill_gaps_detailed_st ks (self, r, ms) =
     ((case fill_gaps_detailed (map (deref self) ks) r ms of
         Inl e \<Rightarrow> Inl e
       | Inr (ms', r') \<Rightarrow> Inr (r', ms')),
      self)"
proof (induction ks arbitrary: r ms)
  case Nil
  then show ?case by simp
next
  case (Cons k ks)
  show ?case
  proof (cases "allocate_into_accounts (deref self k) (min r (gap (deref self k)))")
    case (Inl e)
    then show ?thesis
      by (simp add: Cons.IH Let_def allocate_into_accounts_st_eq store_tier_deref)
  next
    case (Inr splits)
    then show ?thesis
      by (simp add: Cons.IH Let_def allocate_into_accounts_st_eq store_tier_deref)
  qed
qed

lemma rebalance_loop_unfold:
  assumes "i < length over_list" "j < length under_list"
    and "over_list ! i = (from_tier, excess)" "under_list ! j = (to_tier, need)"
  shows "rebalance_loop over_list under_list i j moves =
     rebalance_loop
       (over_list[i := (from_tier, if 0 < round2 (min excess need)
                                   then excess - round2 (min excess need) else excess)])
       (under_list[j := (to_tier, if 0 < round2 (min excess need)
                                  then need - round2 (min excess need) else need)])
       (if (if 0 < round2 (min excess need) then excess - round2 (min excess need) else excess)
             \<le> 5 / 1000 then i + 1 else i)
       (if (if 0 < round2 (min excess need) then need - round2 (min excess need) else need)
             \<le> 5 / 1000 then j + 1 else j)
       (if 0 < round2 (min excess need)
        then moves @ [(route (Tier.name from_tier) (Tier.name to_tier), round2 (min excess need))]
        else moves)"
  using assms by (subst rebalance_loop.simps) (simp add: Let_def)

lemma rebalance_loop_st_unfold:
  assumes "i < length over_list" "j < length under_list"
    and "over_list ! i = (from_tier, excess)" "under_list ! j = (to_tier, need)"
  shows "rebalance_loop_st (self, over_list, under_list, i, j, moves) =
     rebalance_loop_st
       (self,
        over_list[i := (from_tier, if 0 < round2 (min excess need)
                                   then excess - round2 (min excess need) else excess)],
        under_list[j := (to_tier, if 0 < round2 (min excess need)
                                  then need - round2 (min excess need) else need)],
        (if (if 0 < round2 (min excess need) then excess - round2 (min excess need) else excess)
              \<le> 5 / 1000 then i + 1 else i),
        (if (if 0 < round2 (min excess need) then need - round2 (min excess need) else need)
              \<le> 5 / 1000 then j + 1 else j),
        (if 0 < round2 (min excess need)
         then moves @ [(route (Tier.name (deref self from_tier)) (Tier.name (deref self to_tier)),
                        round2 (min excess need))]
         else moves))"
  using assms by (subst rebalance_loop_st.simps) (simp add: Let_def)

lemma rebalance_loop_st_done:
  "\<not> (i < length over_list \<and> j < length under_list) \<Longrightarrow>
   rebalance_loop_st (self, over_list, under_list, i, j, moves) = (moves, self)"
  by (subst rebalance_loop_st.simps) auto

text \<open>The loop on references computes what the loop on tiers computes, and returns the
  Plan it was given.\<close>

lemma rebalance_loop_st_eq:
  "rebalance_loop_st (self, over_list, under_list, i, j, moves) =
     (rebalance_loop (map (\<lambda>(k, x). (deref self k, x)) over_list)
        (map (\<lambda>(k, x). (deref self k, x)) under_list) i j moves,
      self)"
proof (induction "(length over_list - i) + (length under_list - j)"
         arbitrary: over_list under_list i j moves rule: less_induct)
  case less
  let ?F = "\<lambda>(k, x). (deref self k, x)"
  show ?case
  proof (cases "i < length over_list \<and> j < length under_list")
    case False
    then show ?thesis by (simp add: rebalance_loop_st_done rebalance_loop_done)
  next
    case True
    obtain fk excess where o: "over_list ! i = (fk, excess)" by (cases "over_list ! i")
    obtain tk need where u: "under_list ! j = (tk, need)" by (cases "under_list ! j")
    define e' where "e' = (if 0 < round2 (min excess need)
                           then excess - round2 (min excess need) else excess)"
    define n' where "n' = (if 0 < round2 (min excess need)
                           then need - round2 (min excess need) else need)"
    define i' where "i' = (if e' \<le> 5 / 1000 then i + 1 else i)"
    define j' where "j' = (if n' \<le> 5 / 1000 then j + 1 else j)"
    define moves' where "moves' = (if 0 < round2 (min excess need)
         then moves @ [(route (Tier.name (deref self fk)) (Tier.name (deref self tk)),
                        round2 (min excess need))]
         else moves)"
    from True have il: "i < length over_list" and jl: "j < length under_list" by simp_all
    have lhs: "rebalance_loop_st (self, over_list, under_list, i, j, moves) =
                 rebalance_loop_st (self, over_list[i := (fk, e')], under_list[j := (tk, n')],
                                    i', j', moves')"
      unfolding e'_def n'_def i'_def j'_def moves'_def
      by (rule rebalance_loop_st_unfold [OF il jl o u])
    have mo: "map ?F over_list ! i = (deref self fk, excess)" using il o by simp
    have mu: "map ?F under_list ! j = (deref self tk, need)" using jl u by simp
    have rhs: "rebalance_loop (map ?F over_list) (map ?F under_list) i j moves =
                 rebalance_loop ((map ?F over_list)[i := (deref self fk, e')])
                   ((map ?F under_list)[j := (deref self tk, n')]) i' j' moves'"
      unfolding e'_def n'_def i'_def j'_def moves'_def
      by (rule rebalance_loop_unfold [OF _ _ mo mu]) (simp_all add: il jl)
    have adv: "e' \<le> 5 / 1000 \<or> n' \<le> 5 / 1000"
      unfolding e'_def n'_def by (rule rebalance_step_advances)
    have "(length (over_list[i := (fk, e')]) - i') + (length (under_list[j := (tk, n')]) - j')
            < (length over_list - i) + (length under_list - j)"
      using True adv by (auto simp: i'_def j'_def)
    from less.hyps [OF this, of moves']
    have "rebalance_loop_st (self, over_list[i := (fk, e')], under_list[j := (tk, n')],
                             i', j', moves') =
            (rebalance_loop (map ?F (over_list[i := (fk, e')]))
               (map ?F (under_list[j := (tk, n')])) i' j' moves', self)" .
    then show ?thesis unfolding lhs rhs by (simp add: map_update)
  qed
qed

text \<open>
  Claim C7. None of \<open>allocation_plan\<close>, \<open>allocation_plan_detailed\<close>,
  \<open>rebalancing_moves\<close> and \<open>forecast\<close> changes the Plan: the state each call returns,
  whether it returns a result or raises, is the state it was called on, every tier and
  every account in its place with every field as before. The results of the calls are
  the results of the functions above.
\<close>

theorem planning_leaves_plan_unchanged:
  "snd (allocation_plan_st new_cash p) = p
   \<and> snd (allocation_plan_detailed_st new_cash p) = p
   \<and> snd (rebalancing_moves_st p) = p
   \<and> snd (forecast_st months p) = p
   \<and> fst (allocation_plan_st new_cash p) = allocation_plan p new_cash
   \<and> fst (allocation_plan_detailed_st new_cash p) = allocation_plan_detailed p new_cash
   \<and> fst (rebalancing_moves_st p) = rebalancing_moves p
   \<and> fst (forecast_st months p) = forecast p months"
proof -
  have ap: "allocation_plan_st new_cash p = (allocation_plan p new_cash, p)"
    by (simp add: allocation_plan_st_def allocation_plan_def fill_gaps_st_eq
          map_deref_sorted_refs [symmetric] find_map_comp
          split: prod.splits option.splits)
  have apd: "allocation_plan_detailed_st new_cash p = (allocation_plan_detailed p new_cash, p)"
    by (simp add: allocation_plan_detailed_st_def allocation_plan_detailed_def
          fill_gaps_detailed_st_eq map_deref_sorted_refs [symmetric] find_map_comp
          allocate_into_accounts_st_eq store_tier_deref Let_def
          split: prod.splits option.splits sum.splits)
  have rb: "rebalancing_moves_st p = (rebalancing_moves p, p)"
  proof -
    let ?F = "\<lambda>(k, x). (deref p k, x)"
    define under_refs where
      "under_refs = map (\<lambda>k. (k, gap (deref p k)))
                      (filter (\<lambda>k. 0 < gap (deref p k)) (sorted_refs p))"
    define over_refs where
      "over_refs = map (\<lambda>k. (k, total (deref p k) - target (deref p k)))
                     (filter (\<lambda>k. target (deref p k) < total (deref p k)) [0..<length (tiers p)])"
    define under_list where
      "under_list = map (\<lambda>t. (t, gap t)) (filter (\<lambda>t. 0 < gap t) (sorted_by_priority p))"
    define over_list where
      "over_list = map (\<lambda>t. (t, total t - target t)) (filter (\<lambda>t. target t < total t) (tiers p))"
    have "map ?F under_refs =
            map (\<lambda>t. (t, gap t)) (map (deref p) (filter (\<lambda>k. 0 < gap (deref p k)) (sorted_refs p)))"
      by (simp add: under_refs_def comp_def)
    also have "\<dots> = map (\<lambda>t. (t, gap t)) (filter (\<lambda>t. 0 < gap t) (map (deref p) (sorted_refs p)))"
      by (simp only: filter_map_comp)
    finally have u: "map ?F under_refs = under_list"
      by (simp only: map_deref_sorted_refs under_list_def)
    have "map ?F over_refs =
            map (\<lambda>t. (t, total t - target t))
              (map (deref p) (filter (\<lambda>k. target (deref p k) < total (deref p k)) [0..<length (tiers p)]))"
      by (simp add: over_refs_def comp_def)
    also have "\<dots> = map (\<lambda>t. (t, total t - target t))
              (filter (\<lambda>t. target t < total t) (map (deref p) [0..<length (tiers p)]))"
      by (simp only: filter_map_comp)
    finally have o: "map ?F over_refs = over_list"
      by (simp only: map_deref_upt over_list_def)
    have e: "(under_refs = [] \<or> over_refs = []) = (under_list = [] \<or> over_list = [])"
      unfolding u [symmetric] o [symmetric] by simp
    have 1: "rebalancing_moves_st p =
               (if under_refs = [] \<or> over_refs = [] then ([], p)
                else rebalance_loop_st (p, over_refs, under_refs, 0, 0, []))"
      by (simp only: rebalancing_moves_st_def under_refs_def over_refs_def Let_def)
    have 2: "rebalancing_moves p =
               (if under_list = [] \<or> over_list = [] then []
                else rebalance_loop over_list under_list 0 0 [])"
      by (simp only: rebalancing_moves_def under_list_def over_list_def Let_def)
    show ?thesis
      unfolding 1 2 e rebalance_loop_st_eq u o by simp
  qed
  have "foldl (\<lambda>d k. d(Tier.name (deref p k) \<mapsto> tier_growth (deref p k) months)) d0 ks =
        foldl (\<lambda>d t. d(Tier.name t \<mapsto> tier_growth t months)) d0 (map (deref p) ks)" for d0 ks
    by (induction ks arbitrary: d0) simp_all
  then have fc: "forecast_st months p = (forecast p months, p)"
    by (simp add: forecast_st_def forecast_def map_deref_upt)
  show ?thesis by (simp add: ap apd rb fc)
qed

theorem planning_leaves_plan_unchanged_witness:
  "allocation_plan_st 120 waterfall_plan = ([(''Tier 1'', 100), (''Tier 2'', 20)], waterfall_plan)
   \<and> allocation_plan_detailed_st 120 waterfall_plan =
       (Inr [(''Tier 1'', ''Checking'', 100), (''Tier 2'', ''Savings'', 20)], waterfall_plan)
   \<and> allocation_plan_detailed_st 10 (mk_plan [stale_tier]) = (Inl StopIteration, mk_plan [stale_tier])
   \<and> rebalancing_moves_st uneven_plan =
       ([(route ''Tier 1'' ''Tier 2'', 30), (route ''Tier 1'' ''Tier 3'', 20)], uneven_plan)
   \<and> snd (forecast_st 12 savings_plan) = savings_plan"
proof -
  note th = planning_leaves_plan_unchanged
  have a: "allocation_plan waterfall_plan 120 = [(''Tier 1'', 100), (''Tier 2'', 20)]"
    by code_simp
  have b: "allocation_plan_detailed waterfall_plan 120 =
             Inr [(''Tier 1'', ''Checking'', 100), (''Tier 2'', ''Savings'', 20)]"
    by code_simp
  have c: "allocation_plan_detailed (mk_plan [stale_tier]) 10 = Inl StopIteration"
    by code_simp
  have d: "rebalancing_moves uneven_plan =
             [(route ''Tier 1'' ''Tier 2'', 30), (route ''Tier 1'' ''Tier 3'', 20)]"
    by code_simp
  from th [of 120 waterfall_plan] a b
  have 1: "allocation_plan_st 120 waterfall_plan = ([(''Tier 1'', 100), (''Tier 2'', 20)], waterfall_plan)"
    and 2: "allocation_plan_detailed_st 120 waterfall_plan =
       (Inr [(''Tier 1'', ''Checking'', 100), (''Tier 2'', ''Savings'', 20)], waterfall_plan)"
    by (simp_all add: prod_eq_iff)
  from th [of 10 "mk_plan [stale_tier]"] c
  have 3: "allocation_plan_detailed_st 10 (mk_plan [stale_tier]) = (Inl StopIteration, mk_plan [stale_tier])"
    by (simp add: prod_eq_iff)
  from th [of _ uneven_plan] d
  have 4: "rebalancing_moves_st uneven_plan =
       ([(route ''Tier 1'' ''Tier 2'', 30), (route ''Tier 1'' ''Tier 3'', 20)], uneven_plan)"
    by (simp add: prod_eq_iff)
  from th [of _ savings_plan 12]
  have 5: "snd (forecast_st 12 savings_plan) = savings_plan" by simp
  from 1 2 3 4 5 show ?thesis by simp
qed

end
